theory Spec2Isabelle
  imports Main "HOL-Library.Word" "HOL-Library.Multiset"
begin

unbundle bit_operations_syntax

section \<open>The counted pointer and its compare-and-swap (ccas.h)\<close>

text \<open>
  Addresses are 64-bit words and \<open>NULL\<close> is the address 0.  The counter of a
  counted pointer is an \<open>int64_t\<close>; it is kept as a 64-bit word whose addition wraps
  around, and is read as a signed value with \<open>sint\<close> where the code compares it.
\<close>

type_synonym addr = "64 word"

record counted_ptr =
  ptr :: addr
  ctr :: "64 word"

text \<open>
  A failed \<open>assert\<close> aborts the program; a read, write or call through \<open>NULL\<close> or
  through an address that holds no object is a memory fault.
\<close>

datatype error = AssertFail | Fault

text \<open>
  \<open>counted_compare_and_swap mem cell old newptr inc\<close>: \<open>mem\<close> is the address of the
  16-byte cell and \<open>cell\<close> its contents when the instruction executes.  The result is
  the contents of the cell afterwards and the C return value.  The \<open>cmpxchg16b\<close>
  instruction compares all 16 bytes (RDX:RAX holds \<open>old.ctr\<close>:\<open>old.ptr\<close>) and stores
  RCX:RBX (\<open>new.ctr\<close>:\<open>new.ptr\<close>) when they are equal; \<open>setz\<close> makes the result 1 or 0.
\<close>

definition counted_compare_and_swap ::
  "addr \<Rightarrow> counted_ptr \<Rightarrow> counted_ptr \<Rightarrow> addr \<Rightarrow> 64 word \<Rightarrow> error + (counted_ptr \<times> int)" where
  "counted_compare_and_swap mem cell old newptr inc =
     (if mem AND 0x0F \<noteq> 0 then Inl AssertFail
      else if \<not> (0 <s inc) then Inl AssertFail
      else
        let new = \<lparr>ptr = newptr, ctr = ctr old + inc\<rparr>
        in if ptr cell = ptr old \<and> ctr cell = ctr old then Inr (new, 1) else Inr (cell, 0))"

definition counted_ptr_eq :: "counted_ptr \<Rightarrow> counted_ptr \<Rightarrow> bool" where
  "counted_ptr_eq a b = (ptr a = ptr b \<and> ctr a = ctr b)"

section \<open>The lock-free stack (atomic_stack.h)\<close>

text \<open>
  \<open>struct as_entry\<close> has the single field \<open>next\<close> (named \<open>as_next\<close> here) and
  \<open>struct as_head\<close> the single field \<open>first\<close>.  The state of a stack is the address
  \<open>s\<close> of its head, the head itself, and the entries that exist in memory.
\<close>

record as_entry =
  as_next :: addr

record as_head =
  first :: counted_ptr

record as_world =
  s_addr :: addr
  s_head :: as_head
  entries :: "addr \<rightharpoonup> as_entry"

definition load_entry :: "as_world \<Rightarrow> addr \<Rightarrow> as_entry option" where
  "load_entry w a = (if a = 0 then None else entries w a)"

definition as_init :: "as_world \<Rightarrow> error + as_world" where
  "as_init w =
     (if s_addr w AND 0x0F \<noteq> 0 then Inl AssertFail
      else Inr (w\<lparr>s_head := \<lparr>first = \<lparr>ptr = 0, ctr = 0\<rparr>\<rparr>\<rparr>))"

text \<open>
  The \<open>do ... while\<close> loop of \<open>as_push\<close>.  The result \<open>None\<close> stands for a loop that
  never ends.
\<close>

partial_function (option) as_push :: "as_world \<Rightarrow> addr \<Rightarrow> (error + as_world) option" where
  "as_push w e =
     (let oldhead = first (s_head w) in
      case load_entry w e of
        None \<Rightarrow> Some (Inl Fault)
      | Some en \<Rightarrow>
          let w1 = w\<lparr>entries := (entries w)(e \<mapsto> en\<lparr>as_next := ptr oldhead\<rparr>)\<rparr> in
          if ptr oldhead = e then Some (Inl AssertFail)
          else
            (case counted_compare_and_swap (s_addr w1) (first (s_head w1)) oldhead e 1 of
               Inl err \<Rightarrow> Some (Inl err)
             | Inr (cell, r) \<Rightarrow>
                 let w2 = w1\<lparr>s_head := \<lparr>first = cell\<rparr>\<rparr> in
                 if r = 0 then as_push w2 e else Some (Inr w2)))"

partial_function (option) as_pop :: "as_world \<Rightarrow> (error + (addr \<times> as_world)) option" where
  "as_pop w =
     (let ret = first (s_head w) in
      if ptr ret = 0 then Some (Inr (ptr ret, w))
      else
        (case load_entry w (ptr ret) of
           None \<Rightarrow> Some (Inl Fault)
         | Some en \<Rightarrow>
             (case counted_compare_and_swap (s_addr w) (first (s_head w)) ret (as_next en) 1 of
                Inl err \<Rightarrow> Some (Inl err)
              | Inr (cell, r) \<Rightarrow>
                  let w1 = w\<lparr>s_head := \<lparr>first = cell\<rparr>\<rparr> in
                  if r = 0 then as_pop w1 else Some (Inr (ptr ret, w1)))))"

definition as_empty :: "as_world \<Rightarrow> bool" where
  "as_empty w = (ptr (first (s_head w)) = 0)"

section \<open>The lock-free queue (atomic_q.h)\<close>

text \<open>
  \<open>struct atomic_el\<close> has the single field \<open>next\<close> (named \<open>el_next\<close> here), at offset
  0, so the address of an element is the address of its \<open>next\<close> cell.  In
  \<open>struct atomic_q\<close> the two pointers and \<open>_pad1[48]\<close> put \<open>head\<close> at offset 64, and
  \<open>_pad2[48]\<close> puts \<open>tail\<close> at offset 128.

  The state of a queue is the address \<open>mb\<close> of its root, the root, the elements that
  exist in memory, and the calls of the release callback made so far, oldest first,
  each with the function pointer, its argument and the element.  The callback is the
  caller's code; what it does to its own data is not part of the state.
\<close>

record atomic_el =
  el_next :: counted_ptr

record atomic_q =
  freeer :: addr
  freeer_arg :: addr
  head :: counted_ptr
  tail :: counted_ptr

record aq_world =
  mb_addr :: addr
  mb :: atomic_q
  els :: "addr \<rightharpoonup> atomic_el"
  calls :: "(addr \<times> addr \<times> addr) list"

definition head_addr :: "aq_world \<Rightarrow> addr" where
  "head_addr w = mb_addr w + 64"

definition tail_addr :: "aq_world \<Rightarrow> addr" where
  "tail_addr w = mb_addr w + 128"

definition load_el :: "aq_world \<Rightarrow> addr \<Rightarrow> atomic_el option" where
  "load_el w a = (if a = 0 then None else els w a)"

definition store_next :: "aq_world \<Rightarrow> addr \<Rightarrow> counted_ptr \<Rightarrow> aq_world" where
  "store_next w a c = w\<lparr>els := (els w)(a \<mapsto> \<lparr>el_next = c\<rparr>)\<rparr>"

text \<open>The call \<open>mb->freeer(mb->freeer_arg, el)\<close>.\<close>

definition call_freeer :: "aq_world \<Rightarrow> addr \<Rightarrow> error + aq_world" where
  "call_freeer w el =
     (if freeer (mb w) = 0 then Inl Fault
      else Inr (w\<lparr>calls := calls w @ [(freeer (mb w), freeer_arg (mb w), el)]\<rparr>))"

definition handshake_bit :: "64 word" where
  "handshake_bit = push_bit 63 1"

definition aq_init :: "aq_world \<Rightarrow> addr \<Rightarrow> addr \<Rightarrow> addr \<Rightarrow> error + aq_world" where
  "aq_init w dummyel fr fr_arg =
     (if mb_addr w AND 0x0F \<noteq> 0 then Inl AssertFail
      else if dummyel AND 0x0F \<noteq> 0 then Inl AssertFail
      else
        (case load_el w dummyel of
           None \<Rightarrow> Inl Fault
         | Some e \<Rightarrow>
             let w1 = store_next w dummyel \<lparr>ptr = 0, ctr = handshake_bit\<rparr>
             in Inr (w1\<lparr>mb := \<lparr>freeer = fr, freeer_arg = fr_arg,
                               head = \<lparr>ptr = dummyel, ctr = 0\<rparr>,
                               tail = \<lparr>ptr = dummyel, ctr = 0\<rparr>\<rparr>\<rparr>)))"

definition aq_el_init :: "aq_world \<Rightarrow> addr \<Rightarrow> error + aq_world" where
  "aq_el_init w el =
     (case load_el w el of
        None \<Rightarrow> Inl Fault
      | Some e \<Rightarrow> Inr (store_next w el ((el_next e)\<lparr>ctr := 0\<rparr>)))"

definition aq_empty :: "aq_world \<Rightarrow> error + bool" where
  "aq_empty w =
     (case load_el w (ptr (head (mb w))) of
        None \<Rightarrow> Inl Fault
      | Some e \<Rightarrow> Inr (ptr (el_next e) = 0))"

text \<open>The \<open>long\<close> result of \<open>aq_queued\<close> is the signed reading of this word.\<close>

definition aq_queued :: "aq_world \<Rightarrow> 64 word" where
  "aq_queued w = ctr (tail (mb w)) - ctr (head (mb w))"

text \<open>The \<open>while (el)\<close> loop of \<open>aq_free\<close>, and the function.\<close>

partial_function (option) aq_free_loop :: "aq_world \<Rightarrow> addr \<Rightarrow> (error + aq_world) option" where
  "aq_free_loop w el =
     (if el = 0 then Some (Inr w)
      else
        (case load_el w el of
           None \<Rightarrow> Some (Inl Fault)
         | Some e \<Rightarrow>
             (case counted_compare_and_swap (head_addr w) (head (mb w)) (head (mb w))
                     (ptr (el_next e)) 1 of
                Inl err \<Rightarrow> Some (Inl err)
              | Inr (cell, r) \<Rightarrow>
                  let w1 = w\<lparr>mb := (mb w)\<lparr>head := cell\<rparr>\<rparr> in
                  if r \<noteq> 0 then
                    (case call_freeer w1 el of
                       Inl err \<Rightarrow> Some (Inl err)
                     | Inr w2 \<Rightarrow> aq_free_loop w2 (ptr (head (mb w2))))
                  else aq_free_loop w1 (ptr (head (mb w1))))))"

definition aq_free :: "aq_world \<Rightarrow> (error + aq_world) option" where
  "aq_free w =
     (case aq_free_loop w (ptr (head (mb w))) of
        None \<Rightarrow> None
      | Some (Inl err) \<Rightarrow> Some (Inl err)
      | Some (Inr w1) \<Rightarrow>
          Some (Inr (w1\<lparr>mb := (mb w1)\<lparr>head := \<lparr>ptr = 0, ctr = 0\<rparr>,
                                       tail := \<lparr>ptr = 0, ctr = 0\<rparr>,
                                       freeer := 0\<rparr>\<rparr>)))"

text \<open>
  \<open>__sync_fetch_and_xor\<close> on \<open>el->next.ctr\<close> with \<open>1UL<<63\<close>, then the callback when
  the value fetched had the bit set.
\<close>

definition aq_el_free :: "aq_world \<Rightarrow> addr \<Rightarrow> error + aq_world" where
  "aq_el_free w el =
     (case load_el w el of
        None \<Rightarrow> Inl Fault
      | Some e \<Rightarrow>
          let i = ctr (el_next e);
              w1 = store_next w el ((el_next e)\<lparr>ctr := i XOR handshake_bit\<rparr>)
          in if i AND handshake_bit \<noteq> 0 then call_freeer w1 el else Inr w1)"

text \<open>
  \<open>aq_enqueue_multi\<close>, in the order of its statements: the two assertions on \<open>el\<close>,
  the walk to the last element of the chain (\<open>aq_last_el\<close>), the \<open>for (;;)\<close> loop
  that links the chain behind the tail (\<open>aq_link_loop\<close>, which returns the local
  \<open>tail\<close>), and the final compare-and-swap on \<open>mb->tail\<close> with the returned
  difference.  The statements up to the end of the \<open>for\<close> loop are \<open>aq_enqueue_link\<close>,
  the rest is \<open>aq_enqueue_finish\<close>.  The locals \<open>tail\<close>, \<open>head\<close>, \<open>next\<close> and \<open>count\<close> of
  the source are written \<open>tlv\<close>, \<open>hdv\<close>, \<open>nxt\<close> and \<open>cnt\<close>.
\<close>

partial_function (option) aq_last_el ::
  "aq_world \<Rightarrow> addr \<Rightarrow> 64 word \<Rightarrow> (error + (addr \<times> 64 word)) option" where
  "aq_last_el w last_el cnt =
     (case load_el w last_el of
        None \<Rightarrow> Some (Inl Fault)
      | Some e \<Rightarrow>
          if ptr (el_next e) \<noteq> 0 then
            (if last_el = ptr (el_next e) then Some (Inl AssertFail)
             else aq_last_el w (ptr (el_next e)) (cnt + 1))
          else Some (Inr (last_el, cnt)))"

partial_function (option) aq_link_loop ::
  "aq_world \<Rightarrow> addr \<Rightarrow> addr \<Rightarrow> (error + (counted_ptr \<times> aq_world)) option" where
  "aq_link_loop w el last_el =
     (let tlv = tail (mb w) in
      case load_el w (ptr tlv) of
        None \<Rightarrow> Some (Inl Fault)
      | Some te \<Rightarrow>
          let nxt = el_next te in
          if ptr tlv = el then Some (Inl AssertFail)
          else if \<not> counted_ptr_eq tlv (tail (mb w)) then aq_link_loop w el last_el
          else if ptr nxt = 0 then
            (case load_el w last_el of
               None \<Rightarrow> Some (Inl Fault)
             | Some le \<Rightarrow>
                 let w1 = store_next w last_el ((el_next le)\<lparr>ctr := ctr tlv\<rparr>) in
                 (case load_el w1 (ptr tlv) of
                    None \<Rightarrow> Some (Inl Fault)
                  | Some te1 \<Rightarrow>
                      (case counted_compare_and_swap (ptr tlv) (el_next te1) nxt el 1 of
                         Inl err \<Rightarrow> Some (Inl err)
                       | Inr (cell, r) \<Rightarrow>
                           let w2 = store_next w1 (ptr tlv) cell in
                           if r \<noteq> 0 then Some (Inr (tlv, w2))
                           else aq_link_loop w2 el last_el)))
          else
            (case counted_compare_and_swap (tail_addr w) (tail (mb w)) tlv (ptr nxt) 1 of
               Inl err \<Rightarrow> Some (Inl err)
             | Inr (cell, r) \<Rightarrow> aq_link_loop (w\<lparr>mb := (mb w)\<lparr>tail := cell\<rparr>\<rparr>) el last_el))"

definition aq_enqueue_link ::
  "aq_world \<Rightarrow> addr \<Rightarrow> (error + ((counted_ptr \<times> addr \<times> 64 word) \<times> aq_world)) option" where
  "aq_enqueue_link w el =
     (if el AND 0x0F \<noteq> 0 then Some (Inl AssertFail)
      else
        (case load_el w el of
           None \<Rightarrow> Some (Inl Fault)
         | Some e \<Rightarrow>
             if ctr (el_next e) AND handshake_bit \<noteq> 0 then Some (Inl AssertFail)
             else
               (case aq_last_el w el 1 of
                  None \<Rightarrow> None
                | Some (Inl err) \<Rightarrow> Some (Inl err)
                | Some (Inr (last_el, cnt)) \<Rightarrow>
                    (case aq_link_loop w el last_el of
                       None \<Rightarrow> None
                     | Some (Inl err) \<Rightarrow> Some (Inl err)
                     | Some (Inr (tlv, w1)) \<Rightarrow> Some (Inr ((tlv, last_el, cnt), w1))))))"

definition aq_enqueue_finish ::
  "aq_world \<Rightarrow> counted_ptr \<times> addr \<times> 64 word \<Rightarrow> error + (64 word \<times> aq_world)" where
  "aq_enqueue_finish w loc =
     (case loc of (tlv, last_el, cnt) \<Rightarrow>
        (case counted_compare_and_swap (tail_addr w) (tail (mb w)) tlv last_el cnt of
           Inl err \<Rightarrow> Inl err
         | Inr (cell, r) \<Rightarrow>
             let w1 = w\<lparr>mb := (mb w)\<lparr>tail := cell\<rparr>\<rparr>
             in Inr (ctr (tail (mb w1)) - ctr (head (mb w1)), w1)))"

definition aq_enqueue_multi :: "aq_world \<Rightarrow> addr \<Rightarrow> (error + (64 word \<times> aq_world)) option" where
  "aq_enqueue_multi w el =
     (case aq_enqueue_link w el of
        None \<Rightarrow> None
      | Some (Inl err) \<Rightarrow> Some (Inl err)
      | Some (Inr (loc, w1)) \<Rightarrow> Some (aq_enqueue_finish w1 loc))"

definition aq_enqueue :: "aq_world \<Rightarrow> addr \<Rightarrow> (error + (64 word \<times> aq_world)) option" where
  "aq_enqueue w el =
     (case load_el w el of
        None \<Rightarrow> Some (Inl Fault)
      | Some e \<Rightarrow> aq_enqueue_multi (store_next w el ((el_next e)\<lparr>ptr := 0\<rparr>)) el)"

text \<open>
  The \<open>for (;;)\<close> loop of \<open>aq_dequeue\<close>: \<open>Inr (None, w)\<close> is the \<open>return NULL\<close> inside
  the loop, \<open>Inr (Some (head, next), w)\<close> the \<open>break\<close> with the two locals.
\<close>

partial_function (option) aq_dequeue_loop ::
  "aq_world \<Rightarrow> (error + ((counted_ptr \<times> counted_ptr) option \<times> aq_world)) option" where
  "aq_dequeue_loop w =
     (let hdv = head (mb w); tlv = tail (mb w) in
      case load_el w (ptr hdv) of
        None \<Rightarrow> Some (Inl Fault)
      | Some he \<Rightarrow>
          let nxt = el_next he in
          if \<not> counted_ptr_eq hdv (head (mb w)) then aq_dequeue_loop w
          else if ptr nxt = 0 \<or> ptr hdv = ptr tlv then
            (if ptr nxt = 0 then Some (Inr (None, w))
             else
               (case counted_compare_and_swap (tail_addr w) (tail (mb w)) tlv (ptr nxt) 1 of
                  Inl err \<Rightarrow> Some (Inl err)
                | Inr (cell, r) \<Rightarrow> aq_dequeue_loop (w\<lparr>mb := (mb w)\<lparr>tail := cell\<rparr>\<rparr>)))
          else
            (case counted_compare_and_swap (head_addr w) (head (mb w)) hdv (ptr nxt) 1 of
               Inl err \<Rightarrow> Some (Inl err)
             | Inr (cell, r) \<Rightarrow>
                 let w1 = w\<lparr>mb := (mb w)\<lparr>head := cell\<rparr>\<rparr> in
                 if r \<noteq> 0 then Some (Inr (Some (hdv, nxt), w1))
                 else aq_dequeue_loop w1))"

definition aq_dequeue :: "aq_world \<Rightarrow> (error + (addr \<times> aq_world)) option" where
  "aq_dequeue w =
     (case aq_dequeue_loop w of
        None \<Rightarrow> None
      | Some (Inl err) \<Rightarrow> Some (Inl err)
      | Some (Inr (None, w1)) \<Rightarrow> Some (Inr (0, w1))
      | Some (Inr (Some (hdv, nxt), w1)) \<Rightarrow>
          (case aq_el_free w1 (ptr hdv) of
             Inl err \<Rightarrow> Some (Inl err)
           | Inr w2 \<Rightarrow> Some (Inr (ptr nxt, w2))))"

declare as_push.simps [code] as_pop.simps [code] aq_free_loop.simps [code]
  aq_last_el.simps [code] aq_link_loop.simps [code] aq_dequeue_loop.simps [code]

section \<open>Single-threaded programs over the two interfaces\<close>

text \<open>
  A single-threaded client is a list of calls, run one after the other; a failed
  assertion or a fault ends the run.  \<open>Op_enqueue_multi a ys\<close> calls
  \<open>aq_enqueue_multi\<close> on \<open>a\<close>; the list \<open>ys\<close> names the elements the caller has
  chained behind \<open>a\<close> and is not passed to the code.
\<close>

datatype as_op = Op_push addr | Op_pop | Op_as_empty

datatype as_res = Pushed | Popped addr | Is_empty bool

definition as_exec :: "as_op \<Rightarrow> as_world \<Rightarrow> (error + (as_res \<times> as_world)) option" where
  "as_exec op w =
     (case op of
        Op_push e \<Rightarrow>
          (case as_push w e of
             None \<Rightarrow> None
           | Some (Inl err) \<Rightarrow> Some (Inl err)
           | Some (Inr w1) \<Rightarrow> Some (Inr (Pushed, w1)))
      | Op_pop \<Rightarrow>
          (case as_pop w of
             None \<Rightarrow> None
           | Some (Inl err) \<Rightarrow> Some (Inl err)
           | Some (Inr (a, w1)) \<Rightarrow> Some (Inr (Popped a, w1)))
      | Op_as_empty \<Rightarrow> Some (Inr (Is_empty (as_empty w), w)))"

fun as_run :: "as_op list \<Rightarrow> as_world \<Rightarrow> (error + (as_res list \<times> as_world)) option" where
  "as_run [] w = Some (Inr ([], w))"
| "as_run (op # ops) w =
     (case as_exec op w of
        None \<Rightarrow> None
      | Some (Inl err) \<Rightarrow> Some (Inl err)
      | Some (Inr (r, w1)) \<Rightarrow>
          (case as_run ops w1 of
             None \<Rightarrow> None
           | Some (Inl err) \<Rightarrow> Some (Inl err)
           | Some (Inr (rs, w2)) \<Rightarrow> Some (Inr (r # rs, w2))))"

datatype aq_op =
    Op_el_init addr
  | Op_enqueue addr
  | Op_enqueue_multi addr "addr list"
  | Op_dequeue
  | Op_el_free addr
  | Op_queued
  | Op_empty

datatype aq_res = Res_unit | Res_len "64 word" | Res_el addr | Res_bool bool

definition aq_exec :: "aq_op \<Rightarrow> aq_world \<Rightarrow> (error + (aq_res \<times> aq_world)) option" where
  "aq_exec op w =
     (case op of
        Op_el_init a \<Rightarrow>
          (case aq_el_init w a of
             Inl err \<Rightarrow> Some (Inl err)
           | Inr w1 \<Rightarrow> Some (Inr (Res_unit, w1)))
      | Op_enqueue a \<Rightarrow>
          (case aq_enqueue w a of
             None \<Rightarrow> None
           | Some (Inl err) \<Rightarrow> Some (Inl err)
           | Some (Inr (n, w1)) \<Rightarrow> Some (Inr (Res_len n, w1)))
      | Op_enqueue_multi a ys \<Rightarrow>
          (case aq_enqueue_multi w a of
             None \<Rightarrow> None
           | Some (Inl err) \<Rightarrow> Some (Inl err)
           | Some (Inr (n, w1)) \<Rightarrow> Some (Inr (Res_len n, w1)))
      | Op_dequeue \<Rightarrow>
          (case aq_dequeue w of
             None \<Rightarrow> None
           | Some (Inl err) \<Rightarrow> Some (Inl err)
           | Some (Inr (a, w1)) \<Rightarrow> Some (Inr (Res_el a, w1)))
      | Op_el_free a \<Rightarrow>
          (case aq_el_free w a of
             Inl err \<Rightarrow> Some (Inl err)
           | Inr w1 \<Rightarrow> Some (Inr (Res_unit, w1)))
      | Op_queued \<Rightarrow> Some (Inr (Res_len (aq_queued w), w))
      | Op_empty \<Rightarrow>
          (case aq_empty w of
             Inl err \<Rightarrow> Some (Inl err)
           | Inr b \<Rightarrow> Some (Inr (Res_bool b, w))))"

fun aq_run :: "aq_op list \<Rightarrow> aq_world \<Rightarrow> (error + (aq_res list \<times> aq_world)) option" where
  "aq_run [] w = Some (Inr ([], w))"
| "aq_run (op # ops) w =
     (case aq_exec op w of
        None \<Rightarrow> None
      | Some (Inl err) \<Rightarrow> Some (Inl err)
      | Some (Inr (r, w1)) \<Rightarrow>
          (case aq_run ops w1 of
             None \<Rightarrow> None
           | Some (Inl err) \<Rightarrow> Some (Inl err)
           | Some (Inr (rs, w2)) \<Rightarrow> Some (Inr (r # rs, w2))))"

section \<open>Linked structures in memory\<close>

text \<open>
  \<open>el_path h a xs b\<close>: following the \<open>next.ptr\<close> links from \<open>a\<close> visits exactly the
  elements \<open>xs\<close> and arrives at \<open>b\<close>.  A chain is a path that ends in \<open>NULL\<close>.
\<close>

fun el_path :: "(addr \<rightharpoonup> atomic_el) \<Rightarrow> addr \<Rightarrow> addr list \<Rightarrow> addr \<Rightarrow> bool" where
  "el_path h a [] b = (a = b)"
| "el_path h a (x # xs) b =
     (a = x \<and> x \<noteq> 0 \<and> (case h x of None \<Rightarrow> False | Some e \<Rightarrow> el_path h (ptr (el_next e)) xs b))"

definition el_chain :: "(addr \<rightharpoonup> atomic_el) \<Rightarrow> addr \<Rightarrow> addr list \<Rightarrow> bool" where
  "el_chain h a xs = el_path h a xs 0"

text \<open>
  The state of a queue between two calls of a single-threaded client: \<open>head\<close> points
  at the dummy \<open>d\<close>, the chain from the dummy holds the queued elements \<open>xs\<close> in
  order, \<open>tail\<close> points at the last element of the chain, the two counters differ by
  the number of queued elements, the root and the elements are 16-byte aligned, and
  a callback is installed.
\<close>

definition aq_inv :: "aq_world \<Rightarrow> addr \<Rightarrow> addr list \<Rightarrow> bool" where
  "aq_inv w d xs =
     (ptr (head (mb w)) = d \<and> el_chain (els w) d (d # xs) \<and>
      ptr (tail (mb w)) = last (d # xs) \<and>
      ctr (tail (mb w)) - ctr (head (mb w)) = of_nat (length xs) \<and>
      mb_addr w AND 0x0F = 0 \<and> (\<forall>x \<in> set (d # xs). x AND 0x0F = 0) \<and>
      freeer (mb w) \<noteq> 0)"

fun as_list :: "(addr \<rightharpoonup> as_entry) \<Rightarrow> addr \<Rightarrow> addr list \<Rightarrow> bool" where
  "as_list h a [] = (a = 0)"
| "as_list h a (x # xs) =
     (a = x \<and> x \<noteq> 0 \<and> (case h x of None \<Rightarrow> False | Some e \<Rightarrow> as_list h (as_next e) xs))"

definition as_inv :: "as_world \<Rightarrow> addr list \<Rightarrow> bool" where
  "as_inv w st = (as_list (entries w) (ptr (first (s_head w))) st \<and> s_addr w AND 0x0F = 0)"

section \<open>What a stack and a queue return\<close>

text \<open>
  The reference behaviour of a stack, on a list with the top first: the results of a
  program, the stack it leaves, and the number of pushes and pops that moved the
  head.  A push is permitted for an entry that exists, is not \<open>NULL\<close> and is not on
  the stack.
\<close>

fun lifo_run :: "addr list \<Rightarrow> as_op list \<Rightarrow> as_res list" where
  "lifo_run st [] = []"
| "lifo_run st (Op_push e # ops) = Pushed # lifo_run (e # st) ops"
| "lifo_run [] (Op_pop # ops) = Popped 0 # lifo_run [] ops"
| "lifo_run (x # st) (Op_pop # ops) = Popped x # lifo_run st ops"
| "lifo_run st (Op_as_empty # ops) = Is_empty (st = []) # lifo_run st ops"

fun lifo_final :: "addr list \<Rightarrow> as_op list \<Rightarrow> addr list" where
  "lifo_final st [] = st"
| "lifo_final st (Op_push e # ops) = lifo_final (e # st) ops"
| "lifo_final [] (Op_pop # ops) = lifo_final [] ops"
| "lifo_final (x # st) (Op_pop # ops) = lifo_final st ops"
| "lifo_final st (Op_as_empty # ops) = lifo_final st ops"

fun lifo_moves :: "addr list \<Rightarrow> as_op list \<Rightarrow> nat" where
  "lifo_moves st [] = 0"
| "lifo_moves st (Op_push e # ops) = Suc (lifo_moves (e # st) ops)"
| "lifo_moves [] (Op_pop # ops) = lifo_moves [] ops"
| "lifo_moves (x # st) (Op_pop # ops) = Suc (lifo_moves st ops)"
| "lifo_moves st (Op_as_empty # ops) = lifo_moves st ops"

fun as_legal :: "addr set \<Rightarrow> addr list \<Rightarrow> as_op list \<Rightarrow> bool" where
  "as_legal M st [] = True"
| "as_legal M st (Op_push e # ops) = (e \<noteq> 0 \<and> e \<in> M \<and> e \<notin> set st \<and> as_legal M (e # st) ops)"
| "as_legal M [] (Op_pop # ops) = as_legal M [] ops"
| "as_legal M (x # st) (Op_pop # ops) = as_legal M st ops"
| "as_legal M st (Op_as_empty # ops) = as_legal M st ops"

text \<open>
  The reference behaviour of a FIFO queue, on the pair of the dummy (the element
  dequeued last, which the queue still holds) and the list of queued elements,
  oldest first.
\<close>

fun fifo_step :: "addr \<times> addr list \<Rightarrow> aq_op \<Rightarrow> aq_res \<times> (addr \<times> addr list)" where
  "fifo_step (d, q) (Op_el_init a) = (Res_unit, (d, q))"
| "fifo_step (d, q) (Op_enqueue a) = (Res_len (of_nat (length q + 1)), (d, q @ [a]))"
| "fifo_step (d, q) (Op_enqueue_multi a ys) =
     (Res_len (of_nat (length q + length (a # ys))), (d, q @ a # ys))"
| "fifo_step (d, []) Op_dequeue = (Res_el 0, (d, []))"
| "fifo_step (d, x # q) Op_dequeue = (Res_el x, (x, q))"
| "fifo_step (d, q) (Op_el_free a) = (Res_unit, (d, q))"
| "fifo_step (d, q) Op_queued = (Res_len (of_nat (length q)), (d, q))"
| "fifo_step (d, q) Op_empty = (Res_bool (q = []), (d, q))"

fun fifo_run :: "addr \<times> addr list \<Rightarrow> aq_op list \<Rightarrow> aq_res list" where
  "fifo_run st [] = []"
| "fifo_run st (op # ops) = fst (fifo_step st op) # fifo_run (snd (fifo_step st op)) ops"

text \<open>
  The preconditions of the calls, checked in the state in which the call is made:
  an element passed to \<open>aq_el_init\<close> or \<open>aq_el_free\<close> exists; an element passed to
  \<open>aq_enqueue\<close> exists, is aligned, has its handshake bit clear and is not held by
  the queue; a chain passed to \<open>aq_enqueue_multi\<close> is a null-terminated chain of
  aligned elements none of which is held by the queue, and its first element has
  the handshake bit clear.
\<close>

definition bit_clear :: "aq_world \<Rightarrow> addr \<Rightarrow> bool" where
  "bit_clear w a =
     (case load_el w a of None \<Rightarrow> False | Some e \<Rightarrow> ctr (el_next e) AND handshake_bit = 0)"

fun aq_op_pre :: "addr \<times> addr list \<Rightarrow> aq_op \<Rightarrow> aq_world \<Rightarrow> bool" where
  "aq_op_pre (d, q) (Op_el_init a) w = (load_el w a \<noteq> None)"
| "aq_op_pre (d, q) (Op_enqueue a) w =
     (a AND 0x0F = 0 \<and> a \<notin> set (d # q) \<and> bit_clear w a)"
| "aq_op_pre (d, q) (Op_enqueue_multi a ys) w =
     (el_chain (els w) a (a # ys) \<and> (\<forall>y \<in> set (a # ys). y AND 0x0F = 0 \<and> y \<notin> set (d # q)) \<and>
      bit_clear w a)"
| "aq_op_pre (d, q) Op_dequeue w = True"
| "aq_op_pre (d, q) (Op_el_free a) w = (load_el w a \<noteq> None)"
| "aq_op_pre (d, q) Op_queued w = True"
| "aq_op_pre (d, q) Op_empty w = True"

fun aq_pre :: "addr \<times> addr list \<Rightarrow> aq_op list \<Rightarrow> aq_world \<Rightarrow> bool" where
  "aq_pre st [] w = True"
| "aq_pre st (op # ops) w =
     (aq_op_pre st op w \<and>
      (case aq_exec op w of
         Some (Inr (r, w1)) \<Rightarrow> aq_pre (snd (fifo_step st op)) ops w1
       | _ \<Rightarrow> True))"

text \<open>
  The state in which the reference queue is left by a program.
\<close>

fun fifo_final :: "addr \<times> addr list \<Rightarrow> aq_op list \<Rightarrow> addr \<times> addr list" where
  "fifo_final st [] = st"
| "fifo_final st (op # ops) = fifo_final (snd (fifo_step st op)) ops"

section \<open>The life of a queue element\<close>






definition bit_set :: "aq_world \<Rightarrow> addr \<Rightarrow> bool" where
  "bit_set w a =
     (case load_el w a of None \<Rightarrow> False | Some e \<Rightarrow> ctr (el_next e) AND handshake_bit \<noteq> 0)"



text \<open>
  The handshake bits in memory agree with the reference state: set on the dummy exactly
  when it has been released, clear on the queued elements, set on the elements passed
  and not yet released; and the low 63 bits of the last element's counter are not all
  ones, so that linking a successor leaves its bit 63 alone.
\<close>

definition low_ok :: "aq_world \<Rightarrow> addr \<Rightarrow> bool" where
  "low_ok w a =
     (case load_el w a of None \<Rightarrow> False | Some e \<Rightarrow> take_bit 63 (ctr (el_next e)) \<noteq> mask 63)"








section \<open>Example states\<close>

text \<open>
  A memory with three aligned elements at 0x10, 0x20 and 0x30 and one misaligned
  element at 0x48; 0x20 links to 0x48, 0x30 links to itself, and 0x48 has its
  handshake bit set.  \<open>world1\<close> is the queue that \<open>aq_init\<close> makes of it with the
  dummy 0x10, and \<open>world2\<close> that queue after the chain at 0x20 was enqueued.
\<close>

definition mem0 :: "addr \<rightharpoonup> atomic_el" where
  "mem0 = [0x10 \<mapsto> \<lparr>el_next = \<lparr>ptr = 0, ctr = 0\<rparr>\<rparr>,
           0x20 \<mapsto> \<lparr>el_next = \<lparr>ptr = 0x48, ctr = 0\<rparr>\<rparr>,
           0x30 \<mapsto> \<lparr>el_next = \<lparr>ptr = 0x30, ctr = 0\<rparr>\<rparr>,
           0x48 \<mapsto> \<lparr>el_next = \<lparr>ptr = 0, ctr = handshake_bit\<rparr>\<rparr>]"

definition world0 :: aq_world where
  "world0 = \<lparr>mb_addr = 0x1000,
             mb = \<lparr>freeer = 0, freeer_arg = 0,
                   head = \<lparr>ptr = 0, ctr = 0\<rparr>, tail = \<lparr>ptr = 0, ctr = 0\<rparr>\<rparr>,
             els = mem0, calls = []\<rparr>"

definition world1 :: aq_world where
  "world1 = world0\<lparr>mb := \<lparr>freeer = 0xF00, freeer_arg = 0xBADDECAF,
                          head = \<lparr>ptr = 0x10, ctr = 0\<rparr>, tail = \<lparr>ptr = 0x10, ctr = 0\<rparr>\<rparr>,
                   els := mem0(0x10 \<mapsto> \<lparr>el_next = \<lparr>ptr = 0, ctr = handshake_bit\<rparr>\<rparr>)\<rparr>"

definition world2 :: aq_world where
  "world2 = world1\<lparr>els := (els world1)(0x48 \<mapsto> \<lparr>el_next = \<lparr>ptr = 0, ctr = 0\<rparr>\<rparr>,
                                       0x10 \<mapsto> \<lparr>el_next = \<lparr>ptr = 0x20, ctr = handshake_bit + 1\<rparr>\<rparr>),
                   mb := (mb world1)\<lparr>tail := \<lparr>ptr = 0x48, ctr = 2\<rparr>\<rparr>\<rparr>"

definition smem0 :: "addr \<rightharpoonup> as_entry" where
  "smem0 = [0x10 \<mapsto> \<lparr>as_next = 0\<rparr>, 0x20 \<mapsto> \<lparr>as_next = 0\<rparr>, 0x30 \<mapsto> \<lparr>as_next = 0\<rparr>]"

definition stack0 :: as_world where
  "stack0 = \<lparr>s_addr = 0x2000, s_head = \<lparr>first = \<lparr>ptr = 0, ctr = 0\<rparr>\<rparr>, entries = smem0\<rparr>"

text \<open>
  A memory of six aligned elements: 0x10 prepared as a dummy, the chain 0x20, 0x30,
  0x40, the element 0x50 with a stale link, and 0x60.  \<open>world3\<close> is the queue that
  \<open>aq_init\<close> makes of it with the dummy 0x10, and \<open>ops3\<close> a program over it.
\<close>

definition mem1 :: "addr \<rightharpoonup> atomic_el" where
  "mem1 = [0x10 \<mapsto> \<lparr>el_next = \<lparr>ptr = 0, ctr = handshake_bit\<rparr>\<rparr>,
           0x20 \<mapsto> \<lparr>el_next = \<lparr>ptr = 0x30, ctr = 0\<rparr>\<rparr>,
           0x30 \<mapsto> \<lparr>el_next = \<lparr>ptr = 0x40, ctr = 0\<rparr>\<rparr>,
           0x40 \<mapsto> \<lparr>el_next = \<lparr>ptr = 0, ctr = 0\<rparr>\<rparr>,
           0x50 \<mapsto> \<lparr>el_next = \<lparr>ptr = 0x20, ctr = 0\<rparr>\<rparr>,
           0x60 \<mapsto> \<lparr>el_next = \<lparr>ptr = 0, ctr = 0\<rparr>\<rparr>]"

definition world3 :: aq_world where
  "world3 = \<lparr>mb_addr = 0x1000,
             mb = \<lparr>freeer = 0xF00, freeer_arg = 0xBADDECAF,
                   head = \<lparr>ptr = 0x10, ctr = 0\<rparr>, tail = \<lparr>ptr = 0x10, ctr = 0\<rparr>\<rparr>,
             els = mem1, calls = []\<rparr>"

definition ops3 :: "aq_op list" where
  "ops3 = [Op_enqueue 0x50, Op_enqueue_multi 0x20 [0x30, 0x40], Op_queued, Op_dequeue,
           Op_el_free 0x50, Op_dequeue, Op_empty, Op_dequeue, Op_dequeue, Op_empty, Op_dequeue]"



text \<open>
  Two threads on \<open>world3\<close>.  Thread A calls \<open>aq_enqueue_multi\<close> on the chain at 0x20 and
  is preempted when it leaves the \<open>for\<close> loop, with the locals \<open>loc_a\<close> and the memory
  \<open>world_a\<close>; thread B then runs one \<open>aq_dequeue\<close> to its end, which gives \<open>world_b\<close>.
\<close>

definition loc_a :: "counted_ptr \<times> addr \<times> 64 word" where
  "loc_a = (\<lparr>ptr = 0x10, ctr = 0\<rparr>, 0x40, 3)"

definition world_a :: aq_world where
  "world_a = world3\<lparr>els := mem1(0x40 \<mapsto> \<lparr>el_next = \<lparr>ptr = 0, ctr = 0\<rparr>\<rparr>,
                                 0x10 \<mapsto> \<lparr>el_next = \<lparr>ptr = 0x20, ctr = handshake_bit + 1\<rparr>\<rparr>)\<rparr>"

definition world_b :: aq_world where
  "world_b = world_a\<lparr>mb := (mb world3)\<lparr>head := \<lparr>ptr = 0x20, ctr = 1\<rparr>,
                                         tail := \<lparr>ptr = 0x20, ctr = 1\<rparr>\<rparr>,
                     els := (els world_a)(0x10 \<mapsto> \<lparr>el_next = \<lparr>ptr = 0x20, ctr = 1\<rparr>\<rparr>),
                     calls := [(0xF00, 0xBADDECAF, 0x10)]\<rparr>"
section \<open>Auxiliary facts\<close>

lemma el_path_cong:
  "(\<And>x. x \<in> set xs \<Longrightarrow> map_option (\<lambda>e. ptr (el_next e)) (h' x) = map_option (\<lambda>e. ptr (el_next e)) (h x))
   \<Longrightarrow> el_path h' a xs b = el_path h a xs b"
proof (induction xs arbitrary: a)
  case Nil
  show ?case by simp
next
  case (Cons x xs)
  have eq: "map_option (\<lambda>e. ptr (el_next e)) (h' x) = map_option (\<lambda>e. ptr (el_next e)) (h x)"
    using Cons.prems by simp
  have ih: "\<And>c. el_path h' c xs b = el_path h c xs b"
    using Cons.IH Cons.prems by simp
  show ?case using eq ih by (cases "h x"; cases "h' x") auto
qed

lemma el_path_append:
  "el_path h a (xs @ ys) c = (\<exists>b. el_path h a xs b \<and> el_path h b ys c)"
  by (induction xs arbitrary: a) (auto split: option.splits)

lemma el_path_unique:
  "el_path h a xs 0 \<Longrightarrow> el_path h a ys 0 \<Longrightarrow> xs = ys"
proof (induction xs arbitrary: a ys)
  case Nil
  then show ?case by (cases ys) auto
next
  case (Cons x xs)
  then show ?case by (cases ys) (auto split: option.splits)
qed

lemma el_path_distinct:
  assumes "el_path h a xs 0"
  shows "distinct xs"
  using assms
proof (induction xs arbitrary: a)
  case Nil
  show ?case by simp
next
  case (Cons x xs)
  from Cons.prems obtain e where e: "h x = Some e" and rest: "el_path h (ptr (el_next e)) xs 0"
    and ax: "a = x" by (auto split: option.splits)
  have "x \<notin> set xs"
  proof
    assume "x \<in> set xs"
    then obtain us vs where xs: "xs = us @ x # vs" by (auto simp: in_set_conv_decomp)
    from rest xs obtain b where "el_path h b (x # vs) 0"
      by (auto simp: el_path_append)
    then have "el_path h x (x # vs) 0" by auto
    moreover have "el_path h x (x # xs) 0" using Cons.prems ax by simp
    ultimately have "x # vs = x # xs" by (rule el_path_unique)
    then show False using xs by simp
  qed
  moreover have "distinct xs" using Cons.IH rest by blast
  ultimately show ?case by simp
qed

lemma aligned_iff: "((a :: 64 word) AND 0x0F = 0) = (take_bit 4 a = 0)"
proof -
  have "(0x0F :: 64 word) = mask 4" by (simp add: mask_eq_exp_minus_1)
  then show ?thesis by (simp add: take_bit_eq_mask)
qed

lemma aligned_add: "(a :: 64 word) AND 0x0F = 0 \<Longrightarrow> b AND 0x0F = 0 \<Longrightarrow> (a + b) AND 0x0F = 0"
  unfolding aligned_iff by (simp add: take_bit_eq_0_iff)

lemma aligned_head_addr: "mb_addr w AND 0x0F = 0 \<Longrightarrow> head_addr w AND 0x0F = 0"
  unfolding head_addr_def by (rule aligned_add) simp_all

lemma aligned_tail_addr: "mb_addr w AND 0x0F = 0 \<Longrightarrow> tail_addr w AND 0x0F = 0"
  unfolding tail_addr_def by (rule aligned_add) simp_all

lemma sless_one: "0 <s (1 :: 64 word)"
  by (simp add: word_sless_alt)

lemma cas_ok:
  "mem AND 0x0F = 0 \<Longrightarrow> 0 <s inc \<Longrightarrow>
   counted_compare_and_swap mem cell cell newptr inc = Inr (\<lparr>ptr = newptr, ctr = ctr cell + inc\<rparr>, 1)"
  by (simp add: counted_compare_and_swap_def)

lemma aq_free_loop_chain:
  "el_chain (els w) (ptr (head (mb w))) ns \<Longrightarrow> mb_addr w AND 0x0F = 0 \<Longrightarrow> freeer (mb w) \<noteq> 0 \<Longrightarrow>
   aq_free_loop w (ptr (head (mb w))) =
     Some (Inr (w\<lparr>mb := (mb w)\<lparr>head := \<lparr>ptr = 0, ctr = ctr (head (mb w)) + of_nat (length ns)\<rparr>\<rparr>,
                  calls := calls w @ map (\<lambda>n. (freeer (mb w), freeer_arg (mb w), n)) ns\<rparr>))"
proof (induction ns arbitrary: w)
  case Nil
  then have "ptr (head (mb w)) = 0" by (simp add: el_chain_def)
  then show ?case by (subst aq_free_loop.simps) simp
next
  case (Cons n ns)
  from Cons.prems(1) obtain e where hp: "ptr (head (mb w)) = n" and n0: "n \<noteq> 0"
    and e: "els w n = Some e" and rest: "el_chain (els w) (ptr (el_next e)) ns"
    by (auto simp: el_chain_def split: option.splits)
  let ?w2 = "w\<lparr>mb := (mb w)\<lparr>head := \<lparr>ptr = ptr (el_next e), ctr = ctr (head (mb w)) + 1\<rparr>\<rparr>,
               calls := calls w @ [(freeer (mb w), freeer_arg (mb w), n)]\<rparr>"
  have step: "aq_free_loop w (ptr (head (mb w))) = aq_free_loop ?w2 (ptr (head (mb ?w2)))"
    using hp n0 e Cons.prems(2,3)
    by (subst aq_free_loop.simps)
       (simp add: load_el_def cas_ok aligned_head_addr sless_one call_freeer_def)
  have "aq_free_loop ?w2 (ptr (head (mb ?w2))) =
     Some (Inr (?w2\<lparr>mb := (mb ?w2)\<lparr>head := \<lparr>ptr = 0, ctr = ctr (head (mb ?w2)) + of_nat (length ns)\<rparr>\<rparr>,
                  calls := calls ?w2 @ map (\<lambda>n. (freeer (mb ?w2), freeer_arg (mb ?w2), n)) ns\<rparr>))"
    by (rule Cons.IH) (use rest Cons.prems in simp_all)
  then show ?case unfolding step by (simp add: add.assoc add.commute)
qed

lemma el_chain_distinct: "el_chain h a xs \<Longrightarrow> distinct xs"
  unfolding el_chain_def by (rule el_path_distinct)

lemma el_path_mapped: "el_path h a xs b \<Longrightarrow> x \<in> set xs \<Longrightarrow> x \<noteq> 0 \<and> h x \<noteq> None"
  by (induction xs arbitrary: a) (auto split: option.splits)

lemma el_path_hd: "el_path h a (x # xs) b \<Longrightarrow> a = x"
  by simp

lemma el_path_last_null:
  "el_path h a xs 0 \<Longrightarrow> xs \<noteq> [] \<Longrightarrow> \<exists>e. h (last xs) = Some e \<and> ptr (el_next e) = 0"
  by (induction xs arbitrary: a) (auto split: option.splits)

lemma el_path_snoc:
  "el_path h a (xs @ [x]) b = (el_path h a xs x \<and> x \<noteq> 0 \<and> (\<exists>e. h x = Some e \<and> ptr (el_next e) = b))"
  by (auto simp: el_path_append split: option.splits)

lemma aq_last_el_chain:
  "el_path (els w) a ys 0 \<Longrightarrow> ys \<noteq> [] \<Longrightarrow>
   aq_last_el w a c = Some (Inr (last ys, c + of_nat (length ys) - 1))"
proof (induction ys arbitrary: a c)
  case Nil
  then show ?case by simp
next
  case (Cons y ys)
  from Cons.prems(1) obtain e where ay: "a = y" and y0: "y \<noteq> 0" and e: "els w y = Some e"
    and rest: "el_path (els w) (ptr (el_next e)) ys 0"
    by (auto split: option.splits)
  show ?case
  proof (cases ys)
    case Nil
    then have "ptr (el_next e) = 0" using rest by simp
    then show ?thesis using Nil ay y0 e
      by (subst aq_last_el.simps) (simp add: load_el_def)
  next
    case (Cons z zs)
    then have nz: "ptr (el_next e) = z" and z0: "z \<noteq> 0" using rest by auto
    have "distinct (y # ys)" using Cons.prems(1) by (rule el_path_distinct)
    then have yz: "y \<noteq> z" using Cons by auto
    have "aq_last_el w a c = aq_last_el w z (c + 1)"
      using ay y0 e nz z0 yz by (subst aq_last_el.simps) (simp add: load_el_def)
    also have "\<dots> = Some (Inr (last ys, (c + 1) + of_nat (length ys) - 1))"
      using Cons.IH [of z "c + 1"] rest nz Cons by simp
    finally show ?thesis using Cons by simp
  qed
qed

lemma sint_of_nat64: "n < 2 ^ 63 \<Longrightarrow> sint (of_nat n :: 64 word) = int n"
  by (simp add: signed_of_nat signed_take_bit_int_eq_self)

lemma sless_of_nat: "0 < n \<Longrightarrow> n < 2 ^ 63 \<Longrightarrow> 0 <s (of_nat n :: 64 word)"
  by (simp add: word_sless_alt sint_of_nat64)

lemma aq_inv_tail_node:
  assumes "aq_inv w d xs" and "tn = last (d # xs)"
  shows "ptr (tail (mb w)) = tn" and "tn \<noteq> 0"
    and "tn AND 0x0F = 0"
    and "\<exists>te. els w tn = Some te \<and> ptr (el_next te) = 0"
    and "tn \<in> set (d # xs)"
proof -
  have ch: "el_path (els w) d (d # xs) 0" using assms by (simp add: aq_inv_def el_chain_def)
  show "ptr (tail (mb w)) = tn" using assms by (simp add: aq_inv_def)
  show mem: "tn \<in> set (d # xs)" unfolding assms(2) by (rule last_in_set) simp
  show "tn \<noteq> 0" using el_path_mapped [OF ch mem] by simp
  show "tn AND 0x0F = 0" using assms(1) mem unfolding aq_inv_def by blast
  show "\<exists>te. els w tn = Some te \<and> ptr (el_next te) = 0"
    unfolding assms(2) by (rule el_path_last_null [OF ch]) simp
qed

lemma aq_link_loop_ok:
  assumes "ptr (tail (mb w)) = tn" and "tn \<noteq> 0" and "tn AND 0x0F = 0"
    and "els w tn = Some te" and "ptr (el_next te) = 0"
    and "els w last_el = Some le" and "last_el \<noteq> 0"
    and "last_el \<noteq> tn" and "el \<noteq> tn"
  shows "aq_link_loop w el last_el =
           Some (Inr (tail (mb w),
             store_next (store_next w last_el ((el_next le)\<lparr>ctr := ctr (tail (mb w))\<rparr>))
               tn \<lparr>ptr = el, ctr = ctr (el_next te) + 1\<rparr>))"
  using assms
  by (subst aq_link_loop.simps)
     (simp add: Let_def load_el_def counted_ptr_eq_def store_next_def cas_ok sless_one)

lemma aq_enqueue_multi_ok:
  assumes inv: "aq_inv w d xs"
    and ch: "el_chain (els w) el ys" and ne: "ys \<noteq> []"
    and disj: "set ys \<inter> set (d # xs) = {}"
    and e: "els w el = Some e" and hb: "ctr (el_next e) AND handshake_bit = 0"
    and al: "el AND 0x0F = 0" and len: "length ys < 2 ^ 63"
    and te: "els w (last (d # xs)) = Some te"
  shows "aq_enqueue_multi w el =
           Some (Inr (of_nat (length xs + length ys),
             w\<lparr>els := (els w)(last ys \<mapsto> \<lparr>el_next = \<lparr>ptr = 0, ctr = ctr (tail (mb w))\<rparr>\<rparr>,
                               last (d # xs) \<mapsto> \<lparr>el_next = \<lparr>ptr = el, ctr = ctr (el_next te) + 1\<rparr>\<rparr>),
               mb := (mb w)\<lparr>tail := \<lparr>ptr = last ys, ctr = ctr (tail (mb w)) + of_nat (length ys)\<rparr>\<rparr>\<rparr>))"
proof -
  define tn where "tn = last (d # xs)"
  note tn = aq_inv_tail_node [OF inv tn_def]
  have te': "els w tn = Some te" using te by (simp add: tn_def)
  have nul: "ptr (el_next te) = 0" using tn(4) te' by simp
  have p: "el_path (els w) el ys 0" using ch by (simp add: el_chain_def)
  have hd: "el = hd ys" using p ne by (cases ys) auto
  have el0: "el \<noteq> 0" using p ne by (cases ys) auto
  have elin: "el \<in> set ys" using hd ne by simp
  have lin: "last ys \<in> set ys" using ne by simp
  obtain le where le: "els w (last ys) = Some le" and len0: "ptr (el_next le) = 0"
    using el_path_last_null [OF p ne] by blast
  have l0: "last ys \<noteq> 0" using el_path_mapped [OF p lin] by simp
  have ll: "last ys \<noteq> tn" using disj lin tn(5) by blast
  have el': "el \<noteq> tn" using disj elin tn(5) by blast
  have walk: "aq_last_el w el 1 = Some (Inr (last ys, of_nat (length ys)))"
    using aq_last_el_chain [OF p ne, of 1] by simp
  note link = aq_link_loop_ok [OF tn(1,2,3) te' nul le l0 ll el']
  have lnk: "aq_enqueue_link w el =
     Some (Inr ((tail (mb w), last ys, of_nat (length ys)),
        store_next (store_next w (last ys) ((el_next le)\<lparr>ctr := ctr (tail (mb w))\<rparr>))
               tn \<lparr>ptr = el, ctr = ctr (el_next te) + 1\<rparr>))"
    using al el0 e hb by (simp add: aq_enqueue_link_def load_el_def walk link)
  have pos: "0 <s (of_nat (length ys) :: 64 word)"
    using ne len by (intro sless_of_nat) simp_all
  have mbal: "mb_addr w AND 0x0F = 0" using inv by (simp add: aq_inv_def)
  have cnt: "ctr (tail (mb w)) - ctr (head (mb w)) = of_nat (length xs)"
    using inv by (simp add: aq_inv_def)
  have lerec: "(el_next le)\<lparr>ctr := ctr (tail (mb w))\<rparr> = \<lparr>ptr = 0, ctr = ctr (tail (mb w))\<rparr>"
    using len0 by (cases "el_next le") simp
  have ret: "ctr (tail (mb w)) + of_nat (length ys) - ctr (head (mb w))
               = (of_nat (length xs) + of_nat (length ys) :: 64 word)"
    unfolding cnt [symmetric] by simp
  have fin: "aq_enqueue_finish
      (store_next (store_next w (last ys) ((el_next le)\<lparr>ctr := ctr (tail (mb w))\<rparr>))
               tn \<lparr>ptr = el, ctr = ctr (el_next te) + 1\<rparr>)
      (tail (mb w), last ys, of_nat (length ys)) =
     Inr (of_nat (length xs + length ys),
             w\<lparr>els := (els w)(last ys \<mapsto> \<lparr>el_next = \<lparr>ptr = 0, ctr = ctr (tail (mb w))\<rparr>\<rparr>,
                               tn \<mapsto> \<lparr>el_next = \<lparr>ptr = el, ctr = ctr (el_next te) + 1\<rparr>\<rparr>),
               mb := (mb w)\<lparr>tail := \<lparr>ptr = last ys, ctr = ctr (tail (mb w)) + of_nat (length ys)\<rparr>\<rparr>\<rparr>)"
    using pos aligned_tail_addr [OF mbal]
    by (simp add: aq_enqueue_finish_def store_next_def tail_addr_def cas_ok lerec ret)
  show ?thesis
    unfolding aq_enqueue_multi_def lnk tn_def [symmetric] by (simp add: fin)
qed

lemma aq_inv_enqueue_multi:
  assumes inv: "aq_inv w d xs"
    and ch: "el_chain (els w) el ys" and ne: "ys \<noteq> []"
    and disj: "set ys \<inter> set (d # xs) = {}"
    and al: "\<forall>y \<in> set ys. y AND 0x0F = 0"
  shows "aq_inv
           (w\<lparr>els := (els w)(last ys \<mapsto> \<lparr>el_next = \<lparr>ptr = 0, ctr = c1\<rparr>\<rparr>,
                             last (d # xs) \<mapsto> \<lparr>el_next = \<lparr>ptr = el, ctr = c2\<rparr>\<rparr>),
              mb := (mb w)\<lparr>tail := \<lparr>ptr = last ys, ctr = ctr (tail (mb w)) + of_nat (length ys)\<rparr>\<rparr>\<rparr>)
           d (xs @ ys)"
proof -
  define tn where "tn = last (d # xs)"
  define pre where "pre = butlast (d # xs)"
  define h' where "h' = (els w)(last ys \<mapsto> \<lparr>el_next = \<lparr>ptr = 0, ctr = c1\<rparr>\<rparr>,
                             tn \<mapsto> \<lparr>el_next = \<lparr>ptr = el, ctr = c2\<rparr>\<rparr>)"
  have dxs: "d # xs = pre @ [tn]" unfolding pre_def tn_def by simp
  note tn = aq_inv_tail_node [OF inv tn_def]
  have p: "el_path (els w) el ys 0" using ch by (simp add: el_chain_def)
  have q: "el_path (els w) d (pre @ [tn]) 0"
    using inv unfolding dxs [symmetric] by (simp add: aq_inv_def el_chain_def)
  have dist: "distinct (pre @ [tn])" using q by (rule el_path_distinct)
  have lin: "last ys \<in> set ys" using ne by simp
  obtain le where le: "els w (last ys) = Some le" and len0: "ptr (el_next le) = 0"
    using el_path_last_null [OF p ne] by blast
  have tn_ys: "tn \<notin> set ys" using disj tn(5) by blast
  have q1: "el_path (els w) d pre tn" using q by (simp add: el_path_snoc)
  have a1: "el_path h' d pre tn"
  proof -
    have "el_path h' d pre tn = el_path (els w) d pre tn"
    proof (rule el_path_cong)
      fix x assume x: "x \<in> set pre"
      then have "x \<noteq> tn" using dist by auto
      moreover have "x \<noteq> last ys" using x disj lin unfolding dxs by auto
      ultimately show "map_option (\<lambda>e. ptr (el_next e)) (h' x) = map_option (\<lambda>e. ptr (el_next e)) (els w x)"
        by (simp add: h'_def)
    qed
    then show ?thesis using q1 by simp
  qed
  have a2: "el_path h' el ys 0"
  proof -
    have "el_path h' el ys 0 = el_path (els w) el ys 0"
    proof (rule el_path_cong)
      fix x assume x: "x \<in> set ys"
      then have "x \<noteq> tn" using tn_ys by auto
      then show "map_option (\<lambda>e. ptr (el_next e)) (h' x) = map_option (\<lambda>e. ptr (el_next e)) (els w x)"
        using le len0 by (simp add: h'_def)
    qed
    then show ?thesis using p by simp
  qed
  have a3: "h' tn = Some \<lparr>el_next = \<lparr>ptr = el, ctr = c2\<rparr>\<rparr>" by (simp add: h'_def)
  have chain': "el_path h' d (pre @ [tn] @ ys) 0"
    using a1 a2 a3 tn(2) by (subst el_path_append) (auto simp: el_path_append)
  have cnt: "ctr (tail (mb w)) - ctr (head (mb w)) = of_nat (length xs)"
    using inv by (simp add: aq_inv_def)
  have ret: "ctr (tail (mb w)) + of_nat (length ys) - ctr (head (mb w))
               = (of_nat (length xs) + of_nat (length ys) :: 64 word)"
    unfolding cnt [symmetric] by simp
  have e: "d # xs @ ys = (pre @ [tn]) @ ys" unfolding dxs [symmetric] by simp
  have c': "el_chain h' d (d # xs @ ys)"
    unfolding el_chain_def e using chain' by simp
  have hdp: "ptr (head (mb w)) = d" and mbal: "mb_addr w AND 0x0F = 0"
    and fr: "freeer (mb w) \<noteq> 0" and alx: "\<forall>x \<in> set (d # xs). x AND 0x0F = 0"
    using inv by (simp_all add: aq_inv_def)
  have lst: "last (d # xs @ ys) = last ys" using ne by simp
  show ?thesis
    unfolding aq_inv_def tn_def [symmetric] h'_def [symmetric] lst
    using c' hdp mbal fr alx al ret by auto
qed

lemma aq_el_free_ok:
  "els w el = Some e \<Longrightarrow> el \<noteq> 0 \<Longrightarrow> freeer (mb w) \<noteq> 0 \<Longrightarrow>
   aq_el_free w el =
     Inr (w\<lparr>els := (els w)(el \<mapsto> \<lparr>el_next = \<lparr>ptr = ptr (el_next e),
                                               ctr = ctr (el_next e) XOR handshake_bit\<rparr>\<rparr>),
            calls := calls w @ (if ctr (el_next e) AND handshake_bit \<noteq> 0
                                then [(freeer (mb w), freeer_arg (mb w), el)] else [])\<rparr>)"
  by (cases "el_next e")
     (simp add: aq_el_free_def load_el_def Let_def store_next_def call_freeer_def)

lemma aq_inv_cong:
  assumes "aq_inv w d xs" and "mb w' = mb w" and "mb_addr w' = mb_addr w"
    and "\<And>x. x \<in> set (d # xs) \<Longrightarrow>
           map_option (\<lambda>e. ptr (el_next e)) (els w' x) = map_option (\<lambda>e. ptr (el_next e)) (els w x)"
  shows "aq_inv w' d xs"
proof -
  have "el_path (els w') d (d # xs) 0 = el_path (els w) d (d # xs) 0"
    by (rule el_path_cong) (rule assms(4))
  then show ?thesis using assms(1,2,3) by (simp add: aq_inv_def el_chain_def)
qed

lemma aq_inv_head_node:
  assumes "aq_inv w d xs"
  shows "ptr (head (mb w)) = d" and "d \<noteq> 0" and "\<exists>de. els w d = Some de"
    and "d \<notin> set xs"
proof -
  have ch: "el_path (els w) d (d # xs) 0" using assms by (simp add: aq_inv_def el_chain_def)
  show "ptr (head (mb w)) = d" using assms by (simp add: aq_inv_def)
  show "d \<noteq> 0" using ch by simp
  show "\<exists>de. els w d = Some de" using ch by (auto split: option.splits)
  show "d \<notin> set xs" using el_path_distinct [OF ch] by simp
qed

lemma aq_dequeue_loop_empty:
  assumes "ptr (head (mb w)) = d" and "d \<noteq> 0" and "els w d = Some de" and "ptr (el_next de) = 0"
  shows "aq_dequeue_loop w = Some (Inr (None, w))"
  using assms
  by (subst aq_dequeue_loop.simps) (simp add: Let_def load_el_def counted_ptr_eq_def)

lemma aq_dequeue_empty:
  assumes "ptr (head (mb w)) = d" and "d \<noteq> 0" and "els w d = Some de" and "ptr (el_next de) = 0"
  shows "aq_dequeue w = Some (Inr (0, w))"
  by (simp add: aq_dequeue_def aq_dequeue_loop_empty [OF assms])

lemma aq_dequeue_loop_ok:
  assumes "ptr (head (mb w)) = d" and "d \<noteq> 0" and "els w d = Some de"
    and "ptr (el_next de) \<noteq> 0" and "ptr (tail (mb w)) \<noteq> d" and "mb_addr w AND 0x0F = 0"
  shows "aq_dequeue_loop w =
     Some (Inr (Some (head (mb w), el_next de),
                w\<lparr>mb := (mb w)\<lparr>head := \<lparr>ptr = ptr (el_next de), ctr = ctr (head (mb w)) + 1\<rparr>\<rparr>\<rparr>))"
  using assms aligned_head_addr [OF assms(6)]
  by (subst aq_dequeue_loop.simps)
     (simp add: Let_def load_el_def counted_ptr_eq_def cas_ok sless_one)

lemma aq_dequeue_ok:
  assumes inv: "aq_inv w d (x # xs)" and de: "els w d = Some de"
  shows "aq_dequeue w =
     Some (Inr (x,
       w\<lparr>mb := (mb w)\<lparr>head := \<lparr>ptr = x, ctr = ctr (head (mb w)) + 1\<rparr>\<rparr>,
         els := (els w)(d \<mapsto> \<lparr>el_next = \<lparr>ptr = x, ctr = ctr (el_next de) XOR handshake_bit\<rparr>\<rparr>),
         calls := calls w @ (if ctr (el_next de) AND handshake_bit \<noteq> 0
                             then [(freeer (mb w), freeer_arg (mb w), d)] else [])\<rparr>))"
proof -
  note h = aq_inv_head_node [OF inv]
  have ch: "el_path (els w) d (d # x # xs) 0" using inv by (simp add: aq_inv_def el_chain_def)
  have nx: "ptr (el_next de) = x" and x0: "x \<noteq> 0" using ch de by auto
  have tl: "ptr (tail (mb w)) = last (x # xs)" using inv by (simp add: aq_inv_def)
  have "last (x # xs) \<in> set (x # xs)" by (rule last_in_set) simp
  then have td: "ptr (tail (mb w)) \<noteq> d" using h(4) tl by auto
  have mbal: "mb_addr w AND 0x0F = 0" and fr: "freeer (mb w) \<noteq> 0"
    using inv by (simp_all add: aq_inv_def)
  have nz: "ptr (el_next de) \<noteq> 0" using nx x0 by simp
  note loop = aq_dequeue_loop_ok [OF h(1,2) de nz td mbal]
  let ?w1 = "w\<lparr>mb := (mb w)\<lparr>head := \<lparr>ptr = ptr (el_next de), ctr = ctr (head (mb w)) + 1\<rparr>\<rparr>\<rparr>"
  have fre: "aq_el_free ?w1 d = Inr (?w1\<lparr>els := (els ?w1)(d \<mapsto> \<lparr>el_next = \<lparr>ptr = ptr (el_next de),
                                               ctr = ctr (el_next de) XOR handshake_bit\<rparr>\<rparr>),
            calls := calls ?w1 @ (if ctr (el_next de) AND handshake_bit \<noteq> 0
                                then [(freeer (mb ?w1), freeer_arg (mb ?w1), d)] else [])\<rparr>)"
    by (rule aq_el_free_ok) (use de h(2) fr in simp_all)
  show ?thesis
    unfolding aq_dequeue_def loop using h(1) nx fre by simp
qed

lemma aq_inv_dequeue:
  assumes inv: "aq_inv w d (x # xs)"
  shows "aq_inv
       (w\<lparr>mb := (mb w)\<lparr>head := \<lparr>ptr = x, ctr = ctr (head (mb w)) + 1\<rparr>\<rparr>,
         els := (els w)(d \<mapsto> \<lparr>el_next = \<lparr>ptr = x, ctr = c\<rparr>\<rparr>),
         calls := cs\<rparr>) x xs"
proof -
  note h = aq_inv_head_node [OF inv]
  have ch: "el_path (els w) d (d # x # xs) 0" using inv by (simp add: aq_inv_def el_chain_def)
  obtain de where de: "els w d = Some de" and rest: "el_path (els w) x (x # xs) 0"
    using ch by (auto split: option.splits)
  have "el_path ((els w)(d \<mapsto> \<lparr>el_next = \<lparr>ptr = x, ctr = c\<rparr>\<rparr>)) x (x # xs) 0
          = el_path (els w) x (x # xs) 0"
    by (rule el_path_cong) (use h(4) in auto)
  then have ch': "el_chain ((els w)(d \<mapsto> \<lparr>el_next = \<lparr>ptr = x, ctr = c\<rparr>\<rparr>)) x (x # xs)"
    using rest by (simp add: el_chain_def)
  have cnt: "ctr (tail (mb w)) - ctr (head (mb w)) = of_nat (length (x # xs))"
    using inv by (simp add: aq_inv_def)
  have cnt': "ctr (tail (mb w)) - (ctr (head (mb w)) + 1) = of_nat (length xs)"
    using cnt by (simp add: algebra_simps)
  show ?thesis
    using inv ch' cnt' unfolding aq_inv_def by simp
qed

lemma init_world0: "aq_init world0 0x10 0xF00 0xBADDECAF = Inr world1"
  by (simp add: aq_init_def world0_def world1_def load_el_def mem0_def store_next_def)

lemma inv_world1: "aq_inv world1 0x10 []"
  by (simp add: aq_inv_def world1_def world0_def el_chain_def mem0_def)

lemma aq_last_el_self_link:
  "el_path (els w) a ns x \<Longrightarrow> x \<noteq> 0 \<Longrightarrow> els w x = Some xe \<Longrightarrow> ptr (el_next xe) = x \<Longrightarrow>
   aq_last_el w a c = Some (Inl AssertFail)"
proof (induction ns arbitrary: a c)
  case Nil
  then show ?case by (subst aq_last_el.simps) (simp add: load_el_def)
next
  case (Cons n ns)
  from Cons.prems(1) obtain e where an: "a = n" and n0: "n \<noteq> 0" and e: "els w n = Some e"
    and rest: "el_path (els w) (ptr (el_next e)) ns x"
    by (auto split: option.splits)
  have nz: "ptr (el_next e) \<noteq> 0"
    using rest Cons.prems(2) by (cases ns) auto
  show ?case
  proof (cases "n = ptr (el_next e)")
    case True
    then show ?thesis using an n0 e nz by (subst aq_last_el.simps) (simp add: load_el_def)
  next
    case False
    then have "aq_last_el w a c = aq_last_el w (ptr (el_next e)) (c + 1)"
      using an n0 e nz by (subst aq_last_el.simps) (simp add: load_el_def)
    then show ?thesis using Cons.IH [OF rest Cons.prems(2,3,4)] by simp
  qed
qed

lemma as_list_cong:
  "(\<And>x. x \<in> set xs \<Longrightarrow> h' x = h x) \<Longrightarrow> as_list h' a xs = as_list h a xs"
  by (induction xs arbitrary: a) (auto split: option.splits)

lemma as_push_ok:
  assumes inv: "as_inv w st" and en: "entries w e = Some en" and e0: "e \<noteq> 0" and fresh: "e \<notin> set st"
  shows "as_push w e =
           Some (Inr (w\<lparr>entries := (entries w)(e \<mapsto> en\<lparr>as_next := ptr (first (s_head w))\<rparr>),
                        s_head := \<lparr>first = \<lparr>ptr = e, ctr = ctr (first (s_head w)) + 1\<rparr>\<rparr>\<rparr>))"
    and "as_inv (w\<lparr>entries := (entries w)(e \<mapsto> en\<lparr>as_next := ptr (first (s_head w))\<rparr>),
                        s_head := \<lparr>first = \<lparr>ptr = e, ctr = ctr (first (s_head w)) + 1\<rparr>\<rparr>\<rparr>) (e # st)"
proof -
  have l: "as_list (entries w) (ptr (first (s_head w))) st" and al: "s_addr w AND 0x0F = 0"
    using inv by (simp_all add: as_inv_def)
  have ne: "ptr (first (s_head w)) \<noteq> e"
    using l fresh e0 by (cases st) auto
  show "as_push w e =
           Some (Inr (w\<lparr>entries := (entries w)(e \<mapsto> en\<lparr>as_next := ptr (first (s_head w))\<rparr>),
                        s_head := \<lparr>first = \<lparr>ptr = e, ctr = ctr (first (s_head w)) + 1\<rparr>\<rparr>\<rparr>))"
    using en e0 ne al
    by (subst as_push.simps) (simp add: Let_def load_entry_def cas_ok sless_one)
  have "as_list ((entries w)(e \<mapsto> en\<lparr>as_next := ptr (first (s_head w))\<rparr>)) (ptr (first (s_head w))) st
          = as_list (entries w) (ptr (first (s_head w))) st"
    by (rule as_list_cong) (use fresh in auto)
  then show "as_inv (w\<lparr>entries := (entries w)(e \<mapsto> en\<lparr>as_next := ptr (first (s_head w))\<rparr>),
                        s_head := \<lparr>first = \<lparr>ptr = e, ctr = ctr (first (s_head w)) + 1\<rparr>\<rparr>\<rparr>) (e # st)"
    using l al e0 by (simp add: as_inv_def)
qed

lemma as_pop_empty:
  "ptr (first (s_head w)) = 0 \<Longrightarrow> as_pop w = Some (Inr (0, w))"
  by (subst as_pop.simps) (simp add: Let_def)

lemma as_pop_ok:
  assumes inv: "as_inv w (x # st)" and en: "entries w x = Some en"
  shows "as_pop w =
           Some (Inr (x, w\<lparr>s_head := \<lparr>first = \<lparr>ptr = as_next en, ctr = ctr (first (s_head w)) + 1\<rparr>\<rparr>\<rparr>))"
    and "as_inv (w\<lparr>s_head := \<lparr>first = \<lparr>ptr = as_next en, ctr = ctr (first (s_head w)) + 1\<rparr>\<rparr>\<rparr>) st"
proof -
  have l: "as_list (entries w) (ptr (first (s_head w))) (x # st)" and al: "s_addr w AND 0x0F = 0"
    using inv by (simp_all add: as_inv_def)
  have px: "ptr (first (s_head w)) = x" and x0: "x \<noteq> 0" and rest: "as_list (entries w) (as_next en) st"
    using l en by auto
  show "as_pop w =
           Some (Inr (x, w\<lparr>s_head := \<lparr>first = \<lparr>ptr = as_next en, ctr = ctr (first (s_head w)) + 1\<rparr>\<rparr>\<rparr>))"
    using px x0 en al
    by (subst as_pop.simps) (simp add: Let_def load_entry_def cas_ok sless_one)
  show "as_inv (w\<lparr>s_head := \<lparr>first = \<lparr>ptr = as_next en, ctr = ctr (first (s_head w)) + 1\<rparr>\<rparr>\<rparr>) st"
    using rest al by (simp add: as_inv_def)
qed

lemma as_run_lifo:
  "as_inv w st \<Longrightarrow> as_legal (dom (entries w)) st ops \<Longrightarrow>
   \<exists>w'. as_run ops w = Some (Inr (lifo_run st ops, w')) \<and> as_inv w' (lifo_final st ops) \<and>
        ctr (first (s_head w')) = ctr (first (s_head w)) + of_nat (lifo_moves st ops)"
proof (induction st ops arbitrary: w rule: lifo_run.induct)
  case (1 st)
  then show ?case by simp
next
  case (2 st e ops)
  from "2.prems"(2) obtain en where en: "entries w e = Some en" and e0: "e \<noteq> 0"
    and fresh: "e \<notin> set st" and leg: "as_legal (dom (entries w)) (e # st) ops"
    by auto
  let ?w1 = "w\<lparr>entries := (entries w)(e \<mapsto> en\<lparr>as_next := ptr (first (s_head w))\<rparr>),
                        s_head := \<lparr>first = \<lparr>ptr = e, ctr = ctr (first (s_head w)) + 1\<rparr>\<rparr>\<rparr>"
  note p = as_push_ok [OF "2.prems"(1) en e0 fresh]
  have dom: "dom (entries ?w1) = dom (entries w)" using en by auto
  obtain w' where "as_run ops ?w1 = Some (Inr (lifo_run (e # st) ops, w'))"
      "as_inv w' (lifo_final (e # st) ops)"
      "ctr (first (s_head w')) = ctr (first (s_head ?w1)) + of_nat (lifo_moves (e # st) ops)"
    using "2.IH" [OF p(2)] leg unfolding dom by blast
  then show ?case using p(1) by (auto simp: as_exec_def algebra_simps)
next
  case (3 ops)
  then have "ptr (first (s_head w)) = 0" by (simp add: as_inv_def)
  then have pop: "as_pop w = Some (Inr (0, w))" by (rule as_pop_empty)
  obtain w' where "as_run ops w = Some (Inr (lifo_run [] ops, w'))"
      "as_inv w' (lifo_final [] ops)"
      "ctr (first (s_head w')) = ctr (first (s_head w)) + of_nat (lifo_moves [] ops)"
    using "3.IH" [OF "3.prems"(1)] "3.prems"(2) by auto
  then show ?case using pop by (auto simp: as_exec_def)
next
  case (4 x st ops)
  from "4.prems"(1) obtain en where en: "entries w x = Some en"
    by (auto simp: as_inv_def split: option.splits)
  let ?w1 = "w\<lparr>s_head := \<lparr>first = \<lparr>ptr = as_next en, ctr = ctr (first (s_head w)) + 1\<rparr>\<rparr>\<rparr>"
  note p = as_pop_ok [OF "4.prems"(1) en]
  have dom: "dom (entries ?w1) = dom (entries w)" by simp
  obtain w' where "as_run ops ?w1 = Some (Inr (lifo_run st ops, w'))"
      "as_inv w' (lifo_final st ops)"
      "ctr (first (s_head w')) = ctr (first (s_head ?w1)) + of_nat (lifo_moves st ops)"
    using "4.IH" [OF p(2)] "4.prems"(2) unfolding dom by auto
  then show ?case using p(1) by (auto simp: as_exec_def algebra_simps)
next
  case (5 st ops)
  have e: "as_empty w = (st = [])"
    using "5.prems"(1) by (cases st) (auto simp: as_inv_def as_empty_def)
  obtain w' where "as_run ops w = Some (Inr (lifo_run st ops, w'))"
      "as_inv w' (lifo_final st ops)"
      "ctr (first (s_head w')) = ctr (first (s_head w)) + of_nat (lifo_moves st ops)"
    using "5.IH" [OF "5.prems"(1)] "5.prems"(2) by auto
  then show ?case using e by (auto simp: as_exec_def)
qed

lemma lifo_run_pushes:
  "lifo_run st (map Op_push ns @ ops) = replicate (length ns) Pushed @ lifo_run (rev ns @ st) ops"
  by (induction ns arbitrary: st) simp_all

lemma lifo_run_pops:
  "lifo_run (xs @ st) (replicate (length xs) Op_pop) = map Popped xs"
  by (induction xs) simp_all

lemma lifo_run_push_pop:
  "lifo_run [] (map Op_push ns @ replicate (length ns) Op_pop)
     = replicate (length ns) Pushed @ map Popped (rev ns)"
  using lifo_run_pops [of "rev ns" "[]"] by (simp add: lifo_run_pushes)

lemma lifo_moves_pushes:
  "lifo_moves st (map Op_push ns @ ops) = length ns + lifo_moves (rev ns @ st) ops"
  by (induction ns arbitrary: st) simp_all

lemma lifo_moves_pops:
  "lifo_moves (xs @ st) (replicate (length xs) Op_pop) = length xs"
  by (induction xs) simp_all

lemma as_legal_pushes:
  "as_legal M st (map Op_push ns @ ops) =
     ((\<forall>e \<in> set ns. e \<noteq> 0 \<and> e \<in> M \<and> e \<notin> set st) \<and> distinct ns \<and> as_legal M (rev ns @ st) ops)"
  by (induction ns arbitrary: st) auto

lemma as_legal_pops: "as_legal M st (replicate n Op_pop)"
proof (induction n arbitrary: st)
  case 0
  show ?case by simp
next
  case (Suc n)
  then show ?case by (cases st) simp_all
qed

lemma inv_stack0: "as_inv stack0 []"
  by (simp add: as_inv_def stack0_def)

lemma dom_stack0: "dom (entries stack0) = {0x10, 0x20, 0x30}"
  by (auto simp: stack0_def smem0_def)

lemma aligned_unat: "(a :: 64 word) AND 0x0F = 0 \<Longrightarrow> unat a mod 16 = 0"
proof -
  assume "a AND 0x0F = 0"
  then have "take_bit 4 a = 0" by (simp add: aligned_iff)
  then have "a mod 16 = 0" by (simp add: take_bit_eq_mod)
  then have "unat (a mod 16) = 0" by simp
  then show ?thesis by (simp add: unat_mod)
qed

lemma aligned_length:
  assumes "distinct xs" and "\<forall>x \<in> set xs. (x :: 64 word) AND 0x0F = 0"
  shows "length xs \<le> 2 ^ 60"
proof -
  let ?f = "\<lambda>x :: 64 word. unat x div 16"
  have inj: "inj_on ?f (set xs)"
  proof (rule inj_onI)
    fix x y assume x: "x \<in> set xs" and y: "y \<in> set xs" and eq: "unat x div 16 = unat y div 16"
    have "unat x mod 16 = 0" "unat y mod 16 = 0" using assms(2) x y by (simp_all add: aligned_unat)
    then have "unat x = unat y" using eq by (metis div_mult_mod_eq)
    then show "x = y" by (simp add: word_unat_eq_iff)
  qed
  have bnd: "unat x div 16 < 2 ^ 60" for x :: "64 word"
  proof -
    have "unat x < 2 ^ 64" using unsigned_less [of x] by simp
    then show ?thesis by simp
  qed
  have "?f ` set xs \<subseteq> {..< 2 ^ 60}" using bnd by auto
  then have "card (?f ` set xs) \<le> card {..< (2 ^ 60 :: nat)}"
    by (intro card_mono) simp_all
  then have "card (set xs) \<le> 2 ^ 60" using inj by (simp add: card_image)
  then show ?thesis using assms(1) by (simp add: distinct_card)
qed

lemma aq_el_init_ok:
  "load_el w a = Some e \<Longrightarrow>
   aq_el_init w a = Inr (w\<lparr>els := (els w)(a \<mapsto> \<lparr>el_next = \<lparr>ptr = ptr (el_next e), ctr = 0\<rparr>\<rparr>)\<rparr>)"
  by (cases "el_next e") (simp add: aq_el_init_def store_next_def)

lemma load_el_Some: "load_el w a = Some e \<longleftrightarrow> a \<noteq> 0 \<and> els w a = Some e"
  by (simp add: load_el_def)

lemma aq_inv_store_ctr:
  assumes "aq_inv w d xs" and "els w a = Some e"
  shows "aq_inv (w\<lparr>els := (els w)(a \<mapsto> \<lparr>el_next = \<lparr>ptr = ptr (el_next e), ctr = c\<rparr>\<rparr>), calls := cs\<rparr>) d xs"
  by (rule aq_inv_cong [OF assms(1)]) (use assms(2) in auto)

lemma aq_inv_store_fresh:
  assumes "aq_inv w d xs" and "a \<notin> set (d # xs)"
  shows "aq_inv (w\<lparr>els := (els w)(a \<mapsto> e')\<rparr>) d xs"
  by (rule aq_inv_cong [OF assms(1)]) (use assms(2) in auto)

lemma aq_enqueue_ok:
  assumes inv: "aq_inv w d xs" and e: "load_el w a = Some e"
    and al: "a AND 0x0F = 0" and fresh: "a \<notin> set (d # xs)"
    and hb: "ctr (el_next e) AND handshake_bit = 0"
    and te: "els w (last (d # xs)) = Some te"
  shows "aq_enqueue w a =
           Some (Inr (of_nat (length xs + 1),
             w\<lparr>els := (els w)(a \<mapsto> \<lparr>el_next = \<lparr>ptr = 0, ctr = ctr (tail (mb w))\<rparr>\<rparr>,
                               last (d # xs) \<mapsto> \<lparr>el_next = \<lparr>ptr = a, ctr = ctr (el_next te) + 1\<rparr>\<rparr>),
               mb := (mb w)\<lparr>tail := \<lparr>ptr = a, ctr = ctr (tail (mb w)) + 1\<rparr>\<rparr>\<rparr>))"
    and "aq_inv
           (w\<lparr>els := (els w)(a \<mapsto> \<lparr>el_next = \<lparr>ptr = 0, ctr = ctr (tail (mb w))\<rparr>\<rparr>,
                               last (d # xs) \<mapsto> \<lparr>el_next = \<lparr>ptr = a, ctr = ctr (el_next te) + 1\<rparr>\<rparr>),
               mb := (mb w)\<lparr>tail := \<lparr>ptr = a, ctr = ctr (tail (mb w)) + 1\<rparr>\<rparr>\<rparr>)
           d (xs @ [a])"
proof -
  define tn where "tn = last (d # xs)"
  have a0: "a \<noteq> 0" and ea: "els w a = Some e" using e by (simp_all add: load_el_Some)
  have tin: "tn \<in> set (d # xs)" unfolding tn_def by (rule last_in_set) simp
  have atn: "a \<noteq> tn" using fresh tin by auto
  define w0 where "w0 = w\<lparr>els := (els w)(a \<mapsto> \<lparr>el_next = \<lparr>ptr = 0, ctr = ctr (el_next e)\<rparr>\<rparr>)\<rparr>"
  have r: "(el_next e)\<lparr>ptr := 0\<rparr> = \<lparr>ptr = 0, ctr = ctr (el_next e)\<rparr>" by (cases "el_next e") simp
  have enq: "aq_enqueue w a = aq_enqueue_multi w0 a"
    using e by (simp add: aq_enqueue_def store_next_def r w0_def)
  have inv0: "aq_inv w0 d xs" unfolding w0_def by (rule aq_inv_store_fresh [OF inv fresh])
  have ch0: "el_chain (els w0) a [a]" using a0 by (simp add: el_chain_def w0_def)
  have e0: "els w0 a = Some \<lparr>el_next = \<lparr>ptr = 0, ctr = ctr (el_next e)\<rparr>\<rparr>" by (simp add: w0_def)
  have te0: "els w0 (last (d # xs)) = Some te"
    using te atn unfolding tn_def [symmetric] by (simp add: w0_def)
  have m: "aq_enqueue_multi w0 a =
           Some (Inr (of_nat (length xs + length [a]),
             w0\<lparr>els := (els w0)(last [a] \<mapsto> \<lparr>el_next = \<lparr>ptr = 0, ctr = ctr (tail (mb w0))\<rparr>\<rparr>,
                               last (d # xs) \<mapsto> \<lparr>el_next = \<lparr>ptr = a, ctr = ctr (el_next te) + 1\<rparr>\<rparr>),
               mb := (mb w0)\<lparr>tail := \<lparr>ptr = last [a], ctr = ctr (tail (mb w0)) + of_nat (length [a])\<rparr>\<rparr>\<rparr>))"
    by (rule aq_enqueue_multi_ok [OF inv0 ch0 _ _ e0 _ al _ te0]) (use fresh hb in simp_all)
  have i: "aq_inv
           (w0\<lparr>els := (els w0)(last [a] \<mapsto> \<lparr>el_next = \<lparr>ptr = 0, ctr = ctr (tail (mb w0))\<rparr>\<rparr>,
                             last (d # xs) \<mapsto> \<lparr>el_next = \<lparr>ptr = a, ctr = ctr (el_next te) + 1\<rparr>\<rparr>),
              mb := (mb w0)\<lparr>tail := \<lparr>ptr = last [a], ctr = ctr (tail (mb w0)) + of_nat (length [a])\<rparr>\<rparr>\<rparr>)
           d (xs @ [a])"
    by (rule aq_inv_enqueue_multi [OF inv0 ch0]) (use fresh al in simp_all)
  have same: "w0\<lparr>els := (els w0)(last [a] \<mapsto> \<lparr>el_next = \<lparr>ptr = 0, ctr = ctr (tail (mb w0))\<rparr>\<rparr>,
                             last (d # xs) \<mapsto> \<lparr>el_next = \<lparr>ptr = a, ctr = ctr (el_next te) + 1\<rparr>\<rparr>),
              mb := (mb w0)\<lparr>tail := \<lparr>ptr = last [a], ctr = ctr (tail (mb w0)) + of_nat (length [a])\<rparr>\<rparr>\<rparr>
        = w\<lparr>els := (els w)(a \<mapsto> \<lparr>el_next = \<lparr>ptr = 0, ctr = ctr (tail (mb w))\<rparr>\<rparr>,
                               last (d # xs) \<mapsto> \<lparr>el_next = \<lparr>ptr = a, ctr = ctr (el_next te) + 1\<rparr>\<rparr>),
               mb := (mb w)\<lparr>tail := \<lparr>ptr = a, ctr = ctr (tail (mb w)) + 1\<rparr>\<rparr>\<rparr>"
    unfolding tn_def [symmetric] by (simp add: w0_def)
  show "aq_enqueue w a =
           Some (Inr (of_nat (length xs + 1),
             w\<lparr>els := (els w)(a \<mapsto> \<lparr>el_next = \<lparr>ptr = 0, ctr = ctr (tail (mb w))\<rparr>\<rparr>,
                               last (d # xs) \<mapsto> \<lparr>el_next = \<lparr>ptr = a, ctr = ctr (el_next te) + 1\<rparr>\<rparr>),
               mb := (mb w)\<lparr>tail := \<lparr>ptr = a, ctr = ctr (tail (mb w)) + 1\<rparr>\<rparr>\<rparr>))"
    unfolding enq m same by simp
  show "aq_inv
           (w\<lparr>els := (els w)(a \<mapsto> \<lparr>el_next = \<lparr>ptr = 0, ctr = ctr (tail (mb w))\<rparr>\<rparr>,
                               last (d # xs) \<mapsto> \<lparr>el_next = \<lparr>ptr = a, ctr = ctr (el_next te) + 1\<rparr>\<rparr>),
               mb := (mb w)\<lparr>tail := \<lparr>ptr = a, ctr = ctr (tail (mb w)) + 1\<rparr>\<rparr>\<rparr>)
           d (xs @ [a])"
    using i unfolding same .
qed

lemma aq_exec_fifo:
  assumes inv: "aq_inv w d q" and pre: "aq_op_pre (d, q) op w"
  shows "\<exists>w1. aq_exec op w = Some (Inr (fst (fifo_step (d, q) op), w1)) \<and>
              aq_inv w1 (fst (snd (fifo_step (d, q) op))) (snd (snd (fifo_step (d, q) op)))"
proof (cases op)
  case (Op_el_init a)
  then obtain e where e: "load_el w a = Some e" using pre by auto
  then have ea: "els w a = Some e" by (simp add: load_el_Some)
  have "aq_inv (w\<lparr>els := (els w)(a \<mapsto> \<lparr>el_next = \<lparr>ptr = ptr (el_next e), ctr = 0\<rparr>\<rparr>)\<rparr>) d q"
    using aq_inv_store_ctr [OF inv ea, where c = 0 and cs = "calls w"] by simp
  then show ?thesis using Op_el_init by (simp add: aq_exec_def aq_el_init_ok [OF e])
next
  case (Op_enqueue a)
  then have al: "a AND 0x0F = 0" and fresh: "a \<notin> set (d # q)" and bc: "bit_clear w a"
    using pre by simp_all
  from bc obtain e where e: "load_el w a = Some e" and hb: "ctr (el_next e) AND handshake_bit = 0"
    by (auto simp: bit_clear_def split: option.splits)
  obtain te where te: "els w (last (d # q)) = Some te"
    using aq_inv_tail_node(4) [OF inv refl] by blast
  note r = aq_enqueue_ok [OF inv e al fresh hb te]
  show ?thesis using Op_enqueue r by (simp add: aq_exec_def)
next
  case (Op_enqueue_multi a ys)
  then have ch: "el_chain (els w) a (a # ys)"
    and al: "\<forall>y \<in> set (a # ys). y AND 0x0F = 0" and fresh: "set (a # ys) \<inter> set (d # q) = {}"
    and bc: "bit_clear w a"
    using pre by auto
  from bc obtain e where e: "els w a = Some e" and hb: "ctr (el_next e) AND handshake_bit = 0"
    by (auto simp: bit_clear_def load_el_def split: option.splits if_splits)
  obtain te where te: "els w (last (d # q)) = Some te"
    using aq_inv_tail_node(4) [OF inv refl] by blast
  have "length (a # ys) \<le> 2 ^ 60"
    by (rule aligned_length [OF el_chain_distinct [OF ch] al])
  then have len: "length (a # ys) < 2 ^ 63" by simp
  have al1: "a AND 0x0F = 0" using al by simp
  note r = aq_enqueue_multi_ok [OF inv ch _ fresh e hb al1 len te]
  note i = aq_inv_enqueue_multi [OF inv ch _ fresh al, of "ctr (tail (mb w))" "ctr (el_next te) + 1"]
  show ?thesis using Op_enqueue_multi r i by (simp add: aq_exec_def)
next
  case Op_dequeue
  show ?thesis
  proof (cases q)
    case Nil
    note h = aq_inv_head_node [OF inv]
    have ch: "el_path (els w) d [d] 0" using inv Nil by (simp add: aq_inv_def el_chain_def)
    then obtain de where de: "els w d = Some de" and nul: "ptr (el_next de) = 0"
      by (auto split: option.splits)
    show ?thesis
      using Op_dequeue Nil inv aq_dequeue_empty [OF h(1,2) de nul] by (simp add: aq_exec_def)
  next
    case (Cons x q')
    obtain de where de: "els w d = Some de" using aq_inv_head_node(3) [OF inv] by blast
    note r = aq_dequeue_ok [OF inv [unfolded Cons] de]
    note i = aq_inv_dequeue [OF inv [unfolded Cons]]
    show ?thesis using Op_dequeue Cons r i by (simp add: aq_exec_def)
  qed
next
  case (Op_el_free a)
  then obtain e where e: "load_el w a = Some e" using pre by auto
  then have a0: "a \<noteq> 0" and ea: "els w a = Some e" by (simp_all add: load_el_Some)
  have fr: "freeer (mb w) \<noteq> 0" using inv by (simp add: aq_inv_def)
  note r = aq_el_free_ok [OF ea a0 fr]
  note i = aq_inv_store_ctr [OF inv ea]
  show ?thesis using Op_el_free r i by (simp add: aq_exec_def)
next
  case Op_queued
  then show ?thesis using inv by (simp add: aq_exec_def aq_queued_def aq_inv_def)
next
  case Op_empty
  note h = aq_inv_head_node [OF inv]
  have ch: "el_path (els w) d (d # q) 0" using inv by (simp add: aq_inv_def el_chain_def)
  then obtain de where de: "els w d = Some de" and rest: "el_path (els w) (ptr (el_next de)) q 0"
    by (auto split: option.splits)
  have "(ptr (el_next de) = 0) = (q = [])" using rest by (cases q) auto
  then show ?thesis using Op_empty inv h(1,2) de by (simp add: aq_exec_def aq_empty_def load_el_def)
qed

lemma aq_run_fifo:
  "aq_inv w (fst st) (snd st) \<Longrightarrow> aq_pre st ops w \<Longrightarrow>
   \<exists>w'. aq_run ops w = Some (Inr (fifo_run st ops, w')) \<and>
        aq_inv w' (fst (fifo_final st ops)) (snd (fifo_final st ops))"
proof (induction ops arbitrary: w st)
  case Nil
  then show ?case by simp
next
  case (Cons op ops)
  obtain d q where st: "st = (d, q)" by (cases st)
  have inv: "aq_inv w d q" and pre: "aq_op_pre (d, q) op w" using Cons.prems st by simp_all
  obtain w1 where ex: "aq_exec op w = Some (Inr (fst (fifo_step (d, q) op), w1))"
    and inv1: "aq_inv w1 (fst (snd (fifo_step (d, q) op))) (snd (snd (fifo_step (d, q) op)))"
    using aq_exec_fifo [OF inv pre] by blast
  have pre1: "aq_pre (snd (fifo_step (d, q) op)) ops w1"
    using Cons.prems(2) ex st by simp
  obtain w' where "aq_run ops w1 = Some (Inr (fifo_run (snd (fifo_step (d, q) op)) ops, w'))"
    and "aq_inv w' (fst (fifo_final (snd (fifo_step (d, q) op)) ops)) (snd (fifo_final (snd (fifo_step (d, q) op)) ops))"
    using Cons.IH [OF inv1 pre1] by blast
  then show ?case using ex st by simp
qed

lemma inv_world3: "aq_inv world3 0x10 []"
  by (simp add: aq_inv_def world3_def el_chain_def mem1_def)

lemma aq_pre_dequeues: "aq_pre st (replicate n Op_dequeue) w"
proof (induction n arbitrary: st w)
  case 0
  show ?case by simp
next
  case (Suc n)
  obtain d q where st: "st = (d, q)" by (cases st)
  show ?case using Suc by (auto simp: st split: option.splits sum.splits)
qed

lemma fifo_run_dequeues:
  "fifo_run (d, xs @ r) (replicate (length xs) Op_dequeue) = map Res_el xs"
  by (induction xs arbitrary: d) simp_all

lemma fifo_run_enqueues:
  "fifo_run (d, q) (map Op_enqueue ns @ ops) =
     map (\<lambda>i. Res_len (of_nat i)) [Suc (length q) ..< Suc (length q + length ns)] @
     fifo_run (d, q @ ns) ops"
proof (induction ns arbitrary: q)
  case Nil
  show ?case by simp
next
  case (Cons n ns)
  have "[Suc (length q) ..< Suc (length q + length (n # ns))]
          = Suc (length q) # [Suc (length (q @ [n])) ..< Suc (length (q @ [n]) + length ns)]"
    by (simp add: upt_rec)
  then show ?case using Cons [of "q @ [n]"] by simp
qed

lemma aq_pre_enqueues:
  assumes "aq_inv w d q" and "distinct ns"
    and "\<forall>n \<in> set ns. n AND 0x0F = 0 \<and> n \<notin> set (d # q) \<and> bit_clear w n"
  shows "aq_pre (d, q) (map Op_enqueue ns @ replicate k Op_dequeue) w"
  using assms
proof (induction ns arbitrary: w q)
  case Nil
  show ?case by (simp add: aq_pre_dequeues)
next
  case (Cons n ns)
  have al: "n AND 0x0F = 0" and fresh: "n \<notin> set (d # q)" and bc: "bit_clear w n"
    using Cons.prems(3) by simp_all
  from bc obtain e where e: "load_el w n = Some e" and hb: "ctr (el_next e) AND handshake_bit = 0"
    by (auto simp: bit_clear_def split: option.splits)
  obtain te where te: "els w (last (d # q)) = Some te"
    using aq_inv_tail_node(4) [OF Cons.prems(1) refl] by blast
  let ?w1 = "w\<lparr>els := (els w)(n \<mapsto> \<lparr>el_next = \<lparr>ptr = 0, ctr = ctr (tail (mb w))\<rparr>\<rparr>,
                               last (d # q) \<mapsto> \<lparr>el_next = \<lparr>ptr = n, ctr = ctr (el_next te) + 1\<rparr>\<rparr>),
               mb := (mb w)\<lparr>tail := \<lparr>ptr = n, ctr = ctr (tail (mb w)) + 1\<rparr>\<rparr>\<rparr>"
  note r = aq_enqueue_ok [OF Cons.prems(1) e al fresh hb te]
  have tin: "last (d # q) \<in> set (d # q)" by (rule last_in_set) simp
  have rest: "\<forall>m \<in> set ns. m AND 0x0F = 0 \<and> m \<notin> set (d # q @ [n]) \<and> bit_clear ?w1 m"
  proof
    fix m assume m: "m \<in> set ns"
    then have mn: "m \<noteq> n" using Cons.prems(2) by auto
    have mf: "m \<notin> set (d # q)" and mal: "m AND 0x0F = 0" and mbc: "bit_clear w m"
      using Cons.prems(3) m by simp_all
    have ml: "m \<noteq> last (d # q)" using mf tin by metis
    have "load_el ?w1 m = load_el w m" using mn ml by (simp add: load_el_def)
    then have "bit_clear ?w1 m" using mbc by (simp add: bit_clear_def)
    then show "m AND 0x0F = 0 \<and> m \<notin> set (d # q @ [n]) \<and> bit_clear ?w1 m"
      using mal mf mn by simp
  qed
  have "aq_pre (d, q @ [n]) (map Op_enqueue ns @ replicate k Op_dequeue) ?w1"
    by (rule Cons.IH [OF r(2) _ rest]) (use Cons.prems(2) in simp)
  then show ?case using al fresh bc r(1) by (simp add: aq_exec_def)
qed

lemma pre_ops3: "aq_pre (0x10, []) ops3 world3"
  unfolding ops3_def world3_def mem1_def by code_simp

lemma pre_multi3: "aq_op_pre (0x10, []) (Op_enqueue_multi 0x20 [0x30, 0x40]) world3"
  unfolding world3_def mem1_def by code_simp

lemma pre_singles3: "\<forall>n \<in> set [0x50, 0x60, 0x40]. n AND 0x0F = 0 \<and> n \<noteq> (0x10 :: addr) \<and> bit_clear world3 n"
  unfolding world3_def mem1_def by code_simp

lemma hb_pow: "handshake_bit = 2 ^ 63"
  by (simp add: handshake_bit_def)

lemma hb_test: "(c AND handshake_bit \<noteq> 0) = bit c 63" for c :: "64 word"
  by (simp only: hb_pow and_exp_eq_0_iff_not_bit not_not)


lemma hb_xor_low: "take_bit 63 (c XOR handshake_bit) = take_bit 63 c" for c :: "64 word"
  unfolding hb_pow by (simp add: take_bit_xor)

lemma unat_low: "unat (take_bit 63 c) = unat c mod 2 ^ 63" for c :: "64 word"
  by (simp add: take_bit_eq_mod unat_mod)

lemma unat_mask63: "unat (mask 63 :: 64 word) = 2 ^ 63 - 1"
  by (simp add: mask_eq_exp_minus_1)

lemma low_iff: "(take_bit 63 c = mask 63) = (unat c mod 2 ^ 63 = 2 ^ 63 - 1)" for c :: "64 word"
  by (simp add: word_unat_eq_iff unat_low unat_mask63)





lemma hb_low: "take_bit 63 handshake_bit \<noteq> (mask 63 :: 64 word)"
  unfolding hb_pow by (simp add: low_iff)



lemma bit_clear_upd:
  "bit_clear (w\<lparr>els := (els w)(a \<mapsto> \<lparr>el_next = \<lparr>ptr = p, ctr = c\<rparr>\<rparr>), mb := m, calls := cs\<rparr>) x =
     (if x = a then a \<noteq> 0 \<and> \<not> bit c 63 else bit_clear w x)"
  by (simp add: bit_clear_def load_el_def hb_test [symmetric])

lemma bit_set_upd:
  "bit_set (w\<lparr>els := (els w)(a \<mapsto> \<lparr>el_next = \<lparr>ptr = p, ctr = c\<rparr>\<rparr>), mb := m, calls := cs\<rparr>) x =
     (if x = a then a \<noteq> 0 \<and> bit c 63 else bit_set w x)"
  by (simp add: bit_set_def load_el_def hb_test [symmetric])

lemma low_ok_upd:
  "low_ok (w\<lparr>els := (els w)(a \<mapsto> \<lparr>el_next = \<lparr>ptr = p, ctr = c\<rparr>\<rparr>), mb := m, calls := cs\<rparr>) x =
     (if x = a then a \<noteq> 0 \<and> take_bit 63 c \<noteq> mask 63 else low_ok w x)"
  by (simp add: low_ok_def load_el_def)



















lemma aq_dequeue_loop_help:
  assumes "ptr (head (mb w)) = d" and "d \<noteq> 0" and "els w d = Some de"
    and "ptr (el_next de) \<noteq> 0" and "ptr (tail (mb w)) = d" and "mb_addr w AND 0x0F = 0"
  shows "aq_dequeue_loop w =
     aq_dequeue_loop (w\<lparr>mb := (mb w)\<lparr>tail := \<lparr>ptr = ptr (el_next de), ctr = ctr (tail (mb w)) + 1\<rparr>\<rparr>\<rparr>)"
  using assms aligned_tail_addr [OF assms(6)]
  by (subst aq_dequeue_loop.simps)
     (simp add: Let_def load_el_def counted_ptr_eq_def cas_ok sless_one)

lemma link_world3: "aq_enqueue_link world3 0x20 = Some (Inr (loc_a, world_a))"
proof -
  have p: "el_path (els world3) 0x20 [0x20, 0x30, 0x40] 0" by (simp add: world3_def mem1_def)
  have walk: "aq_last_el world3 0x20 1 = Some (Inr (0x40, 3))"
    using aq_last_el_chain [OF p, of 1] by simp
  have link: "aq_link_loop world3 0x20 0x40 =
           Some (Inr (tail (mb world3),
             store_next (store_next world3 0x40 ((el_next \<lparr>el_next = \<lparr>ptr = 0, ctr = 0\<rparr>\<rparr>)\<lparr>ctr := ctr (tail (mb world3))\<rparr>))
               0x10 \<lparr>ptr = 0x20, ctr = ctr (el_next \<lparr>el_next = \<lparr>ptr = 0, ctr = handshake_bit\<rparr>\<rparr>) + 1\<rparr>))"
    by (rule aq_link_loop_ok) (simp_all add: world3_def mem1_def)
  have l: "load_el world3 0x20 = Some \<lparr>el_next = \<lparr>ptr = 0x30, ctr = 0\<rparr>\<rparr>"
    by (simp add: load_el_def world3_def mem1_def)
  have step: "aq_enqueue_link world3 0x20 =
     Some (Inr ((tail (mb world3), 0x40, 3),
       store_next (store_next world3 0x40 ((el_next \<lparr>el_next = \<lparr>ptr = 0, ctr = 0\<rparr>\<rparr>)\<lparr>ctr := ctr (tail (mb world3))\<rparr>))
               0x10 \<lparr>ptr = 0x20, ctr = ctr (el_next \<lparr>el_next = \<lparr>ptr = 0, ctr = handshake_bit\<rparr>\<rparr>) + 1\<rparr>))"
    by (simp add: aq_enqueue_link_def l walk link)
  show ?thesis
    unfolding step by (simp add: store_next_def loc_a_def world_a_def world3_def)
qed

lemma dequeue_world_a: "aq_dequeue world_a = Some (Inr (0x20, world_b))"
proof -
  let ?w1 = "world_a\<lparr>mb := (mb world_a)\<lparr>tail := \<lparr>ptr = 0x20, ctr = 1\<rparr>\<rparr>\<rparr>"
  have de: "els world_a 0x10 = Some \<lparr>el_next = \<lparr>ptr = 0x20, ctr = handshake_bit + 1\<rparr>\<rparr>"
    by (simp add: world_a_def)
  have h1: "aq_dequeue_loop world_a = aq_dequeue_loop ?w1"
    using aq_dequeue_loop_help [of world_a "0x10", OF _ _ de]
    by (simp add: world_a_def world3_def)
  have de1: "els ?w1 0x10 = Some \<lparr>el_next = \<lparr>ptr = 0x20, ctr = handshake_bit + 1\<rparr>\<rparr>"
    by (simp add: world_a_def)
  have h2: "aq_dequeue_loop ?w1 =
     Some (Inr (Some (head (mb ?w1), \<lparr>ptr = 0x20, ctr = handshake_bit + 1\<rparr>),
                ?w1\<lparr>mb := (mb ?w1)\<lparr>head := \<lparr>ptr = 0x20, ctr = ctr (head (mb ?w1)) + 1\<rparr>\<rparr>\<rparr>))"
    using aq_dequeue_loop_ok [of ?w1 "0x10", OF _ _ de1]
    by (simp add: world_a_def world3_def)
  have x: "(handshake_bit + 1) XOR handshake_bit = (1 :: 64 word)"
    and y: "(handshake_bit + 1) AND handshake_bit \<noteq> (0 :: 64 word)"
    by (simp_all add: handshake_bit_def)
  show ?thesis
    unfolding aq_dequeue_def h1 h2
    by (simp add: aq_el_free_def load_el_def Let_def store_next_def call_freeer_def x y
          world_a_def world_b_def world3_def)
qed

section \<open>The claims\<close>



text \<open>
  Claim C2.  A single-threaded program over an initialised queue, each of whose calls
  meets its precondition in the state in which it is made, runs to its end and
  returns what the reference FIFO queue returns: every \<open>aq_dequeue\<close> returns the
  element enqueued earliest and not yet dequeued, or \<open>NULL\<close> when there is none.  In
  particular, on an empty queue, enqueueing \<open>ns\<close> one by one and dequeuing as many
  times returns \<open>ns\<close> in order; and \<open>aq_enqueue_multi\<close> of a null-terminated chain of
  \<open>k\<close> elements returns \<open>k\<close> (also read as a \<open>long\<close>), and the next \<open>k\<close> calls of
  \<open>aq_dequeue\<close> return the elements of the chain in chain order.
\<close>

theorem queue_fifo:
  assumes "aq_inv w d q"
  shows "(aq_pre (d, q) ops w \<longrightarrow>
            (\<exists>w'. aq_run ops w = Some (Inr (fifo_run (d, q) ops, w'))))
       \<and> (q = [] \<longrightarrow> distinct ns \<longrightarrow> (\<forall>n \<in> set ns. n AND 0x0F = 0 \<and> n \<noteq> d \<and> bit_clear w n) \<longrightarrow>
            (\<exists>w'. aq_run (map Op_enqueue ns @ replicate (length ns) Op_dequeue) w
                     = Some (Inr (map (\<lambda>i. Res_len (of_nat i)) [1 ..< Suc (length ns)] @ map Res_el ns, w'))))
       \<and> (q = [] \<longrightarrow> aq_op_pre (d, []) (Op_enqueue_multi a ys) w \<longrightarrow>
            (\<exists>w'. aq_run (Op_enqueue_multi a ys # replicate (Suc (length ys)) Op_dequeue) w
                     = Some (Inr (Res_len (of_nat (Suc (length ys))) # map Res_el (a # ys), w'))) \<and>
            sint (of_nat (Suc (length ys)) :: 64 word) = int (Suc (length ys)))"
proof (intro conjI impI)
  assume "aq_pre (d, q) ops w"
  then show "\<exists>w'. aq_run ops w = Some (Inr (fifo_run (d, q) ops, w'))"
    using aq_run_fifo [of w "(d, q)" ops] assms by auto
next
  assume q: "q = []" and dist: "distinct ns"
    and ns: "\<forall>n \<in> set ns. n AND 0x0F = 0 \<and> n \<noteq> d \<and> bit_clear w n"
  have pre: "aq_pre (d, q) (map Op_enqueue ns @ replicate (length ns) Op_dequeue) w"
    by (rule aq_pre_enqueues [OF assms dist]) (use ns q in auto)
  have "fifo_run (d, []) (map Op_enqueue ns @ replicate (length ns) Op_dequeue)
          = map (\<lambda>i. Res_len (of_nat i)) [1 ..< Suc (length ns)] @ map Res_el ns"
    using fifo_run_dequeues [of d ns "[]"] by (simp add: fifo_run_enqueues)
  then show "\<exists>w'. aq_run (map Op_enqueue ns @ replicate (length ns) Op_dequeue) w
                     = Some (Inr (map (\<lambda>i. Res_len (of_nat i)) [1 ..< Suc (length ns)] @ map Res_el ns, w'))"
    using aq_run_fifo [of w "(d, q)", OF _ pre] assms q by auto
next
  assume q: "q = []" and p: "aq_op_pre (d, []) (Op_enqueue_multi a ys) w"
  have pre: "aq_pre (d, q) (Op_enqueue_multi a ys # replicate (Suc (length ys)) Op_dequeue) w"
    using p q aq_pre_dequeues [of _ "Suc (length ys)"]
    by (auto simp del: replicate_Suc aq_op_pre.simps split: option.splits sum.splits)
  have "fifo_run (d, []) (Op_enqueue_multi a ys # replicate (Suc (length ys)) Op_dequeue)
          = Res_len (of_nat (Suc (length ys))) # map Res_el (a # ys)"
    using fifo_run_dequeues [of d "a # ys" "[]"] by simp
  then show "\<exists>w'. aq_run (Op_enqueue_multi a ys # replicate (Suc (length ys)) Op_dequeue) w
                     = Some (Inr (Res_len (of_nat (Suc (length ys))) # map Res_el (a # ys), w'))"
    using aq_run_fifo [of w "(d, q)", OF _ pre] assms q by auto
next
  assume p: "aq_op_pre (d, []) (Op_enqueue_multi a ys) w"
  then have ch: "el_chain (els w) a (a # ys)" and al: "\<forall>y \<in> set (a # ys). y AND 0x0F = 0"
    by auto
  have "length (a # ys) \<le> 2 ^ 60"
    by (rule aligned_length [OF el_chain_distinct [OF ch] al])
  then have "Suc (length ys) < 2 ^ 63" by simp
  then show "sint (of_nat (Suc (length ys)) :: 64 word) = int (Suc (length ys))"
    by (rule sint_of_nat64)
qed

theorem queue_fifo_witness:
  "aq_inv world3 0x10 [] \<and> aq_pre (0x10, []) ops3 world3 \<and>
   (\<exists>w'. aq_run ops3 world3 =
      Some (Inr ([Res_len 1, Res_len 4, Res_len 4, Res_el 0x50, Res_unit, Res_el 0x20,
                  Res_bool False, Res_el 0x30, Res_el 0x40, Res_bool True, Res_el 0], w'))) \<and>
   (\<exists>w'. aq_run [Op_enqueue 0x50, Op_enqueue 0x60, Op_enqueue 0x40, Op_dequeue, Op_dequeue, Op_dequeue] world3 =
      Some (Inr ([Res_len 1, Res_len 2, Res_len 3, Res_el 0x50, Res_el 0x60, Res_el 0x40], w'))) \<and>
   aq_op_pre (0x10, []) (Op_enqueue_multi 0x20 [0x30, 0x40]) world3 \<and>
   (\<exists>w'. aq_run [Op_enqueue_multi 0x20 [0x30, 0x40], Op_dequeue, Op_dequeue, Op_dequeue] world3 =
      Some (Inr ([Res_len 3, Res_el 0x20, Res_el 0x30, Res_el 0x40], w')))"
proof -
  note t = queue_fifo [OF inv_world3, of ops3 "[0x50, 0x60, 0x40]" "0x20" "[0x30, 0x40]"]
  have a: "\<exists>w'. aq_run ops3 world3 =
      Some (Inr ([Res_len 1, Res_len 4, Res_len 4, Res_el 0x50, Res_unit, Res_el 0x20,
                  Res_bool False, Res_el 0x30, Res_el 0x40, Res_bool True, Res_el 0], w'))"
    using t [THEN conjunct1] pre_ops3 by (simp add: ops3_def)
  have b: "\<exists>w'. aq_run [Op_enqueue 0x50, Op_enqueue 0x60, Op_enqueue 0x40, Op_dequeue, Op_dequeue, Op_dequeue] world3 =
      Some (Inr ([Res_len 1, Res_len 2, Res_len 3, Res_el 0x50, Res_el 0x60, Res_el 0x40], w'))"
    using t [THEN conjunct2, THEN conjunct1] pre_singles3
    by (simp add: upt_rec)
  have c: "\<exists>w'. aq_run [Op_enqueue_multi 0x20 [0x30, 0x40], Op_dequeue, Op_dequeue, Op_dequeue] world3 =
      Some (Inr ([Res_len 3, Res_el 0x20, Res_el 0x30, Res_el 0x40], w'))"
    using t [THEN conjunct2, THEN conjunct2] pre_multi3
    by (simp del: aq_op_pre.simps)
  show ?thesis by (intro conjI inv_world3 pre_ops3 pre_multi3 a b c)
qed

text \<open>
  Claim C3.  On a 16-byte-aligned cell and with a positive increment,
  \<open>counted_compare_and_swap\<close> stores \<open>(newptr, old.ctr + inc)\<close> and returns 1 when
  the cell equals the expected value in both halves, and otherwise leaves the cell as
  it is and returns 0; the stored value always differs from the expected one, so the
  cell changes exactly when the call succeeds.  \<open>counted_ptr_eq\<close> holds exactly when
  both halves are equal.
\<close>

theorem cas_contract:
  assumes "mem AND 0x0F = 0" and "0 <s inc"
  shows "counted_compare_and_swap mem cell old newptr inc =
           (if cell = old then Inr (\<lparr>ptr = newptr, ctr = ctr old + inc\<rparr>, 1) else Inr (cell, 0))
         \<and> \<lparr>ptr = newptr, ctr = ctr old + inc\<rparr> \<noteq> old
         \<and> counted_ptr_eq a b = (ptr a = ptr b \<and> ctr a = ctr b)
         \<and> counted_ptr_eq a b = (a = b)"
proof -
  have "inc \<noteq> 0" using assms(2) by auto
  then have "ctr old + inc \<noteq> ctr old" by simp
  then have "\<lparr>ptr = newptr, ctr = ctr old + inc\<rparr> \<noteq> old" by (cases old) auto
  moreover have "counted_compare_and_swap mem cell old newptr inc =
           (if cell = old then Inr (\<lparr>ptr = newptr, ctr = ctr old + inc\<rparr>, 1) else Inr (cell, 0))"
    using assms by (cases cell; cases old) (simp add: counted_compare_and_swap_def)
  moreover have "counted_ptr_eq a b = (a = b)"
    by (cases a; cases b) (simp add: counted_ptr_eq_def)
  ultimately show ?thesis by (simp add: counted_ptr_eq_def)
qed

theorem cas_contract_witness:
  "(0x1040 :: addr) AND 0x0F = 0 \<and> 0 <s (3 :: 64 word) \<and>
   counted_compare_and_swap 0x1040 \<lparr>ptr = 0x10, ctr = 7\<rparr> \<lparr>ptr = 0x10, ctr = 7\<rparr> 0x20 3
     = Inr (\<lparr>ptr = 0x20, ctr = 10\<rparr>, 1) \<and>
   counted_compare_and_swap 0x1040 \<lparr>ptr = 0x10, ctr = 8\<rparr> \<lparr>ptr = 0x10, ctr = 7\<rparr> 0x20 3
     = Inr (\<lparr>ptr = 0x10, ctr = 8\<rparr>, 0)"
proof -
  have a: "(0x1040 :: addr) AND 0x0F = 0" by simp
  have b: "0 <s (3 :: 64 word)" by (simp add: word_sless_alt)
  show ?thesis
    using a b cas_contract [OF a b, of "\<lparr>ptr = 0x10, ctr = 7\<rparr>" "\<lparr>ptr = 0x10, ctr = 7\<rparr>" "0x20"]
      cas_contract [OF a b, of "\<lparr>ptr = 0x10, ctr = 8\<rparr>" "\<lparr>ptr = 0x10, ctr = 7\<rparr>" "0x20"]
    by simp
qed

text \<open>
  Claim C4, at the failing interleaving.  Thread A links its chain of three elements
  behind the dummy; thread B dequeues, helping \<open>tail\<close> forward by one element and one
  count; thread A's last compare-and-swap on \<open>tail\<close> then fails and its
  \<open>aq_enqueue_multi\<close> returns 0.  No call is in flight, \<open>aq_queued\<close> is 0, and the
  two elements 0x30 and 0x40 are queued behind the dummy 0x20.
\<close>

theorem queued_undercount:
  "aq_enqueue_link world3 0x20 = Some (Inr (loc_a, world_a)) \<and>
   aq_dequeue world_a = Some (Inr (0x20, world_b)) \<and>
   aq_enqueue_finish world_b loc_a = Inr (0, world_b) \<and>
   aq_queued world_b = 0 \<and>
   aq_empty world_b = Inr False \<and>
   el_chain (els world_b) (ptr (head (mb world_b))) [0x20, 0x30, 0x40]"
proof -
  have pos: "0 <s (3 :: 64 word)" by (simp add: word_sless_alt)
  have al: "tail_addr world_b AND 0x0F = 0"
    by (simp add: tail_addr_def world_b_def world_a_def world3_def)
  have fin: "aq_enqueue_finish world_b loc_a = Inr (0, world_b)"
    using pos al
    by (simp add: aq_enqueue_finish_def loc_a_def counted_compare_and_swap_def
          world_b_def world_a_def world3_def)
  have q: "aq_queued world_b = 0" by (simp add: aq_queued_def world_b_def world3_def)
  have e: "aq_empty world_b = Inr False"
    by (simp add: aq_empty_def load_el_def world_b_def world_a_def world3_def mem1_def)
  have c: "el_chain (els world_b) (ptr (head (mb world_b))) [0x20, 0x30, 0x40]"
    by (simp add: el_chain_def world_b_def world_a_def world3_def mem1_def)
  show ?thesis by (intro conjI link_world3 dequeue_world_a fin q e c)
qed

text \<open>
  Claim C5.  On an initialised queue with no queued element \<open>aq_dequeue\<close> returns
  \<open>NULL\<close> as an ordinary result and leaves the whole state, so also \<open>head\<close> and
  \<open>tail\<close>, as it was; \<open>aq_queued\<close> returns 0 and \<open>aq_empty\<close> returns true.
\<close>

theorem empty_queue_observations:
  assumes "aq_inv w d []"
  shows "aq_dequeue w = Some (Inr (0, w)) \<and> aq_queued w = 0 \<and> sint (aq_queued w) = 0
         \<and> aq_empty w = Inr True"
proof -
  note h = aq_inv_head_node [OF assms]
  have ch: "el_path (els w) d [d] 0" using assms by (simp add: aq_inv_def el_chain_def)
  then obtain de where de: "els w d = Some de" and nul: "ptr (el_next de) = 0"
    by (auto split: option.splits)
  have "aq_queued w = 0" using assms by (simp add: aq_inv_def aq_queued_def)
  moreover have "aq_empty w = Inr True"
    using h(1,2) de nul by (simp add: aq_empty_def load_el_def)
  moreover note aq_dequeue_empty [OF h(1,2) de nul]
  ultimately show ?thesis by simp
qed

theorem empty_queue_observations_witness:
  "aq_inv world1 0x10 [] \<and> aq_dequeue world1 = Some (Inr (0, world1)) \<and> aq_queued world1 = 0
     \<and> aq_empty world1 = Inr True"
  using empty_queue_observations [OF inv_world1] inv_world1 by simp

text \<open>
  Claim C6, as amended.  \<open>aq_enqueue_multi\<close> stops with a failed assertion when the
  first element of the chain is not 16-byte aligned, when the first element has its
  handshake bit set, and when the walk along the chain reaches an element that links
  to itself.  The alignment and the handshake bit of the later elements are not
  examined.
\<close>

theorem enqueue_multi_assertions:
  shows "(el AND 0x0F \<noteq> 0 \<longrightarrow> aq_enqueue_multi w el = Some (Inl AssertFail))
       \<and> (load_el w el = Some e \<longrightarrow> ctr (el_next e) AND handshake_bit \<noteq> 0 \<longrightarrow>
            aq_enqueue_multi w el = Some (Inl AssertFail))
       \<and> (load_el w el = Some e \<longrightarrow> el_path (els w) el ns x \<longrightarrow> x \<noteq> 0 \<longrightarrow>
            els w x = Some xe \<longrightarrow> ptr (el_next xe) = x \<longrightarrow>
            aq_enqueue_multi w el = Some (Inl AssertFail))"
proof (intro conjI impI)
  assume "el AND 0x0F \<noteq> 0"
  then show "aq_enqueue_multi w el = Some (Inl AssertFail)"
    by (simp add: aq_enqueue_multi_def aq_enqueue_link_def)
next
  assume "load_el w el = Some e" and "ctr (el_next e) AND handshake_bit \<noteq> 0"
  then show "aq_enqueue_multi w el = Some (Inl AssertFail)"
    by (simp add: aq_enqueue_multi_def aq_enqueue_link_def)
next
  assume e: "load_el w el = Some e" and p: "el_path (els w) el ns x" and x0: "x \<noteq> 0"
    and xe: "els w x = Some xe" and self: "ptr (el_next xe) = x"
  have "aq_last_el w el 1 = Some (Inl AssertFail)"
    by (rule aq_last_el_self_link [OF p x0 xe self])
  then show "aq_enqueue_multi w el = Some (Inl AssertFail)"
    using e by (simp add: aq_enqueue_multi_def aq_enqueue_link_def)
qed

theorem enqueue_multi_assertions_witness:
  "aq_enqueue_multi world1 0x48 = Some (Inl AssertFail) \<and>
   aq_enqueue_multi (world1\<lparr>els := mem0(0x20 \<mapsto> \<lparr>el_next = \<lparr>ptr = 0, ctr = handshake_bit\<rparr>\<rparr>)\<rparr>) 0x20
      = Some (Inl AssertFail) \<and>
   aq_enqueue_multi (world1\<lparr>els := mem0(0x20 \<mapsto> \<lparr>el_next = \<lparr>ptr = 0x30, ctr = 0\<rparr>\<rparr>)\<rparr>) 0x20
      = Some (Inl AssertFail)"
proof -
  have a: "(0x48 :: addr) AND 0x0F \<noteq> 0" by simp
  let ?w2 = "world1\<lparr>els := mem0(0x20 \<mapsto> \<lparr>el_next = \<lparr>ptr = 0, ctr = handshake_bit\<rparr>\<rparr>)\<rparr>"
  let ?w3 = "world1\<lparr>els := mem0(0x20 \<mapsto> \<lparr>el_next = \<lparr>ptr = 0x30, ctr = 0\<rparr>\<rparr>)\<rparr>"
  have b1: "load_el ?w2 0x20 = Some \<lparr>el_next = \<lparr>ptr = 0, ctr = handshake_bit\<rparr>\<rparr>"
    by (simp add: load_el_def)
  have b2: "ctr (el_next \<lparr>el_next = \<lparr>ptr = 0, ctr = handshake_bit\<rparr>\<rparr>) AND handshake_bit \<noteq> 0"
    by (simp add: handshake_bit_def)
  have c1: "load_el ?w3 0x20 = Some \<lparr>el_next = \<lparr>ptr = 0x30, ctr = 0\<rparr>\<rparr>"
    by (simp add: load_el_def)
  have c2: "el_path (els ?w3) 0x20 [0x20] 0x30" by simp
  have c3: "els ?w3 0x30 = Some \<lparr>el_next = \<lparr>ptr = 0x30, ctr = 0\<rparr>\<rparr>" by (simp add: mem0_def)
  have c4: "(0x30 :: addr) \<noteq> 0" by simp
  have c5: "ptr (el_next \<lparr>el_next = \<lparr>ptr = 0x30, ctr = 0\<rparr>\<rparr>) = 0x30" by simp
  show ?thesis
    using enqueue_multi_assertions [of "0x48" world1, THEN conjunct1, rule_format, OF a]
      enqueue_multi_assertions [of "0x20" ?w2, THEN conjunct2, THEN conjunct1, rule_format, OF b1 b2]
      enqueue_multi_assertions [of "0x20" ?w3, THEN conjunct2, THEN conjunct2, rule_format, OF c1 c2 c4 c3 c5]
    by simp
qed

text \<open>
  The claim as stated fails: the chain 0x20, 0x48, whose second element is misaligned
  and has its handshake bit set, is enqueued without any assertion failing.
\<close>

theorem enqueue_multi_unchecked_counterexample:
  "(0x48 :: addr) AND 0x0F \<noteq> 0 \<and>
   els world1 0x48 = Some \<lparr>el_next = \<lparr>ptr = 0, ctr = handshake_bit\<rparr>\<rparr> \<and>
   handshake_bit AND handshake_bit \<noteq> 0 \<and>
   el_chain (els world1) 0x20 [0x20, 0x48] \<and>
   aq_enqueue_multi world1 0x20 = Some (Inr (2, world2))"
proof -
  have te: "els world1 (last [0x10]) = Some \<lparr>el_next = \<lparr>ptr = 0, ctr = handshake_bit\<rparr>\<rparr>"
    by (simp add: world1_def)
  have ch: "el_chain (els world1) 0x20 [0x20, 0x48]"
    by (simp add: el_chain_def world1_def world0_def mem0_def)
  have e: "els world1 0x20 = Some \<lparr>el_next = \<lparr>ptr = 0x48, ctr = 0\<rparr>\<rparr>"
    by (simp add: world1_def world0_def mem0_def)
  have "aq_enqueue_multi world1 0x20 = Some (Inr (2, world2))"
    using aq_enqueue_multi_ok [OF inv_world1 ch _ _ e _ _ _ te]
    by (simp add: world2_def world1_def world0_def)
  moreover have "els world1 0x48 = Some \<lparr>el_next = \<lparr>ptr = 0, ctr = handshake_bit\<rparr>\<rparr>"
    by (simp add: world1_def world0_def mem0_def)
  moreover have "handshake_bit AND handshake_bit \<noteq> 0" by (simp add: handshake_bit_def)
  ultimately show ?thesis using ch by simp
qed

text \<open>
  Claim C7.  A single-threaded program over a stack, started in a state whose linked
  entries are \<open>st\<close> and pushing only entries that exist and are not on the stack,
  runs to its end and returns what the reference stack returns, so every pop returns
  the entry pushed last and not yet popped; the head counter grows by one for every
  push and every pop of an entry.  In particular pushing \<open>ns\<close> on the empty stack and
  popping as many times returns \<open>ns\<close> reversed, \<open>as_pop\<close> after \<open>as_push\<close> of \<open>n\<close>
  returns \<open>n\<close> with the counter advanced by one each time, and \<open>as_pop\<close> on a null
  head returns \<open>NULL\<close> and leaves the state as it was.
\<close>

theorem stack_lifo:
  assumes "as_inv w st" and "as_legal (dom (entries w)) st ops"
  shows "(\<exists>w'. as_run ops w = Some (Inr (lifo_run st ops, w')) \<and>
              ctr (first (s_head w')) = ctr (first (s_head w)) + of_nat (lifo_moves st ops))
       \<and> (st = [] \<longrightarrow> distinct ns \<longrightarrow> (\<forall>e \<in> set ns. e \<noteq> 0 \<and> e \<in> dom (entries w)) \<longrightarrow>
            (\<exists>w'. as_run (map Op_push ns @ replicate (length ns) Op_pop) w
                  = Some (Inr (replicate (length ns) Pushed @ map Popped (rev ns), w'))))
       \<and> (entries w n = Some en \<longrightarrow> n \<noteq> 0 \<longrightarrow> n \<notin> set st \<longrightarrow>
            (\<exists>w1 w2. as_push w n = Some (Inr w1) \<and>
                     ctr (first (s_head w1)) = ctr (first (s_head w)) + 1 \<and>
                     as_pop w1 = Some (Inr (n, w2)) \<and>
                     ctr (first (s_head w2)) = ctr (first (s_head w1)) + 1 \<and>
                     ptr (first (s_head w2)) = ptr (first (s_head w))))
       \<and> (ptr (first (s_head w)) = 0 \<longrightarrow> as_pop w = Some (Inr (0, w)))"
proof (intro conjI impI)
  show "\<exists>w'. as_run ops w = Some (Inr (lifo_run st ops, w')) \<and>
              ctr (first (s_head w')) = ctr (first (s_head w)) + of_nat (lifo_moves st ops)"
    using as_run_lifo [OF assms] by blast
next
  assume e: "st = []" and d: "distinct ns" and m: "\<forall>e \<in> set ns. e \<noteq> 0 \<and> e \<in> dom (entries w)"
  have leg: "as_legal (dom (entries w)) [] (map Op_push ns @ replicate (length ns) Op_pop)"
    using d m by (simp add: as_legal_pushes as_legal_pops)
  show "\<exists>w'. as_run (map Op_push ns @ replicate (length ns) Op_pop) w
                  = Some (Inr (replicate (length ns) Pushed @ map Popped (rev ns), w'))"
    using as_run_lifo [OF assms(1) [unfolded e] leg] unfolding lifo_run_push_pop by blast
next
  assume en: "entries w n = Some en" and n0: "n \<noteq> 0" and fresh: "n \<notin> set st"
  let ?w1 = "w\<lparr>entries := (entries w)(n \<mapsto> en\<lparr>as_next := ptr (first (s_head w))\<rparr>),
               s_head := \<lparr>first = \<lparr>ptr = n, ctr = ctr (first (s_head w)) + 1\<rparr>\<rparr>\<rparr>"
  note p = as_push_ok [OF assms(1) en n0 fresh]
  have en1: "entries ?w1 n = Some (en\<lparr>as_next := ptr (first (s_head w))\<rparr>)" by simp
  note q = as_pop_ok [OF p(2) en1]
  show "\<exists>w1 w2. as_push w n = Some (Inr w1) \<and>
                     ctr (first (s_head w1)) = ctr (first (s_head w)) + 1 \<and>
                     as_pop w1 = Some (Inr (n, w2)) \<and>
                     ctr (first (s_head w2)) = ctr (first (s_head w1)) + 1 \<and>
                     ptr (first (s_head w2)) = ptr (first (s_head w))"
    using p(1) q(1) by simp
next
  assume "ptr (first (s_head w)) = 0"
  then show "as_pop w = Some (Inr (0, w))" by (rule as_pop_empty)
qed

theorem stack_lifo_witness:
  "as_inv stack0 [] \<and>
   as_legal (dom (entries stack0)) [] [Op_push 0x10, Op_push 0x20, Op_pop, Op_as_empty, Op_pop, Op_pop] \<and>
   (\<exists>w'. as_run [Op_push 0x10, Op_push 0x20, Op_pop, Op_as_empty, Op_pop, Op_pop] stack0
            = Some (Inr ([Pushed, Pushed, Popped 0x20, Is_empty False, Popped 0x10, Popped 0], w')) \<and>
          ctr (first (s_head w')) = 4) \<and>
   (\<exists>w'. as_run [Op_push 0x10, Op_push 0x20, Op_push 0x30, Op_pop, Op_pop, Op_pop] stack0
            = Some (Inr ([Pushed, Pushed, Pushed, Popped 0x30, Popped 0x20, Popped 0x10], w'))) \<and>
   (\<exists>w1 w2. as_push stack0 0x20 = Some (Inr w1) \<and> ctr (first (s_head w1)) = 1 \<and>
             as_pop w1 = Some (Inr (0x20, w2)) \<and> ctr (first (s_head w2)) = 2) \<and>
   as_pop stack0 = Some (Inr (0, stack0))"
proof -
  let ?ops = "[Op_push 0x10, Op_push 0x20, Op_pop, Op_as_empty, Op_pop, Op_pop]"
  have leg: "as_legal (dom (entries stack0)) [] ?ops"
    by (simp add: dom_stack0)
  have e20: "entries stack0 0x20 = Some \<lparr>as_next = 0\<rparr>" by (simp add: stack0_def smem0_def)
  note t = stack_lifo [OF inv_stack0 leg, of "[0x10, 0x20, 0x30]" "0x20" "\<lparr>as_next = 0\<rparr>"]
  have c1: "\<exists>w'. as_run ?ops stack0
            = Some (Inr ([Pushed, Pushed, Popped 0x20, Is_empty False, Popped 0x10, Popped 0], w')) \<and>
          ctr (first (s_head w')) = 4"
    using t [THEN conjunct1] by (simp add: stack0_def)
  have c2: "\<exists>w'. as_run [Op_push 0x10, Op_push 0x20, Op_push 0x30, Op_pop, Op_pop, Op_pop] stack0
            = Some (Inr ([Pushed, Pushed, Pushed, Popped 0x30, Popped 0x20, Popped 0x10], w'))"
    using t [THEN conjunct2, THEN conjunct1] by (simp add: dom_stack0)
  have c3: "\<exists>w1 w2. as_push stack0 0x20 = Some (Inr w1) \<and> ctr (first (s_head w1)) = 1 \<and>
             as_pop w1 = Some (Inr (0x20, w2)) \<and> ctr (first (s_head w2)) = 2"
    using t [THEN conjunct2, THEN conjunct2, THEN conjunct1] e20 by (auto simp: stack0_def)
  have c4: "as_pop stack0 = Some (Inr (0, stack0))"
    using t [THEN conjunct2, THEN conjunct2, THEN conjunct2] by (simp add: stack0_def)
  show ?thesis by (intro conjI inv_stack0 leg c1 c2 c3 c4)
qed

text \<open>
  Claim C8, as amended.  Called on a queue whose chain from \<open>head\<close> is
  null-terminated, \<open>aq_free\<close> calls the release callback once for every element of
  the chain, the dummy first, and leaves no other trace in memory; afterwards
  \<open>head\<close>, \<open>tail\<close> and the callback pointer are zero, and the callback argument
  \<open>freeer_arg\<close> is what it was.
\<close>

theorem aq_free_drains:
  assumes "el_chain (els w) (ptr (head (mb w))) ns"
    and "mb_addr w AND 0x0F = 0" and "freeer (mb w) \<noteq> 0"
  shows "aq_free w =
           Some (Inr (w\<lparr>mb := \<lparr>freeer = 0, freeer_arg = freeer_arg (mb w),
                              head = \<lparr>ptr = 0, ctr = 0\<rparr>, tail = \<lparr>ptr = 0, ctr = 0\<rparr>\<rparr>,
                        calls := calls w @ map (\<lambda>n. (freeer (mb w), freeer_arg (mb w), n)) ns\<rparr>))
         \<and> distinct ns"
proof -
  have "distinct ns" using assms(1) by (rule el_chain_distinct)
  moreover have "aq_free w =
           Some (Inr (w\<lparr>mb := \<lparr>freeer = 0, freeer_arg = freeer_arg (mb w),
                              head = \<lparr>ptr = 0, ctr = 0\<rparr>, tail = \<lparr>ptr = 0, ctr = 0\<rparr>\<rparr>,
                        calls := calls w @ map (\<lambda>n. (freeer (mb w), freeer_arg (mb w), n)) ns\<rparr>))"
    unfolding aq_free_def aq_free_loop_chain [OF assms] by (cases "mb w") simp
  ultimately show ?thesis by simp
qed

theorem aq_free_drains_witness:
  "el_chain (els world2) (ptr (head (mb world2))) [0x10, 0x20, 0x48] \<and>
   aq_free world2 =
     Some (Inr (world2\<lparr>mb := \<lparr>freeer = 0, freeer_arg = 0xBADDECAF,
                              head = \<lparr>ptr = 0, ctr = 0\<rparr>, tail = \<lparr>ptr = 0, ctr = 0\<rparr>\<rparr>,
                        calls := [(0xF00, 0xBADDECAF, 0x10), (0xF00, 0xBADDECAF, 0x20),
                                  (0xF00, 0xBADDECAF, 0x48)]\<rparr>))"
proof -
  have ch: "el_chain (els world2) (ptr (head (mb world2))) [0x10, 0x20, 0x48]"
    by (simp add: el_chain_def world2_def world1_def world0_def mem0_def)
  have al: "mb_addr world2 AND 0x0F = 0" by (simp add: world2_def world1_def world0_def)
  have fr: "freeer (mb world2) \<noteq> 0" by (simp add: world2_def world1_def world0_def)
  show ?thesis
    using ch aq_free_drains [OF ch al fr] by (simp add: world2_def world1_def world0_def)
qed

text \<open>
  The claim as stated fails: after \<open>aq_free\<close> the callback argument of the queue
  initialised with the argument 0xBADDECAF is still 0xBADDECAF.
\<close>

theorem aq_free_keeps_arg_counterexample:
  "aq_free world1 =
     Some (Inr (world1\<lparr>mb := \<lparr>freeer = 0, freeer_arg = 0xBADDECAF,
                              head = \<lparr>ptr = 0, ctr = 0\<rparr>, tail = \<lparr>ptr = 0, ctr = 0\<rparr>\<rparr>,
                        calls := [(0xF00, 0xBADDECAF, 0x10)]\<rparr>))
   \<and> (0xBADDECAF :: addr) \<noteq> 0"
proof -
  have ch: "el_chain (els world1) (ptr (head (mb world1))) [0x10]"
    by (simp add: el_chain_def world1_def world0_def mem0_def)
  have "aq_free_loop world1 (ptr (head (mb world1))) =
     Some (Inr (world1\<lparr>mb := (mb world1)\<lparr>head := \<lparr>ptr = 0, ctr = ctr (head (mb world1)) + of_nat (length [0x10 :: addr])\<rparr>\<rparr>,
                  calls := calls world1 @ map (\<lambda>n. (freeer (mb world1), freeer_arg (mb world1), n)) [0x10]\<rparr>))"
    by (rule aq_free_loop_chain [OF ch]) (simp_all add: world1_def world0_def)
  then show ?thesis by (simp add: aq_free_def world1_def world0_def)
qed

text \<open>
  Claim C9.  \<open>aq_enqueue\<close> on an existing element \<open>el\<close> is \<open>aq_enqueue_multi\<close> on the
  state in which \<open>el->next.ptr\<close> is \<open>NULL\<close> and nothing else has changed; the walk of
  \<open>aq_enqueue_multi\<close> in that state stops at \<open>el\<close> with the count 1; and whatever link
  \<open>p\<close> the element held before the call, the result is the same.  On a queue that
  holds \<open>xs\<close> behind the dummy \<open>d\<close>, for an aligned element that is not queued and
  whose handshake bit is clear, the call returns, the number returned is one more
  than the length of \<open>xs\<close>, the queue holds \<open>xs\<close> followed by \<open>el\<close> alone, \<open>el->next.ptr\<close>
  is \<open>NULL\<close>, the tail counter has advanced by 1, and no element other than \<open>el\<close> and
  the previous last element has been written, so the element that the stale link
  pointed at is neither queued nor touched.
\<close>

theorem aq_enqueue_nulls_next:
  assumes e: "load_el w el = Some e"
  shows "aq_enqueue w el =
           aq_enqueue_multi (w\<lparr>els := (els w)(el \<mapsto> \<lparr>el_next = \<lparr>ptr = 0, ctr = ctr (el_next e)\<rparr>\<rparr>)\<rparr>) el
       \<and> aq_last_el (w\<lparr>els := (els w)(el \<mapsto> \<lparr>el_next = \<lparr>ptr = 0, ctr = ctr (el_next e)\<rparr>\<rparr>)\<rparr>) el 1
           = Some (Inr (el, 1))
       \<and> aq_enqueue (w\<lparr>els := (els w)(el \<mapsto> \<lparr>el_next = \<lparr>ptr = p, ctr = ctr (el_next e)\<rparr>\<rparr>)\<rparr>) el
           = aq_enqueue w el
       \<and> (aq_inv w d xs \<and> el AND 0x0F = 0 \<and> el \<notin> set (d # xs)
            \<and> ctr (el_next e) AND handshake_bit = 0 \<longrightarrow>
          (case aq_enqueue w el of
             Some (Inr (n, w')) \<Rightarrow>
               n = of_nat (length xs) + 1 \<and> aq_inv w' d (xs @ [el]) \<and>
               els w' el = Some \<lparr>el_next = \<lparr>ptr = 0, ctr = ctr (tail (mb w))\<rparr>\<rparr> \<and>
               tail (mb w') = \<lparr>ptr = el, ctr = ctr (tail (mb w)) + 1\<rparr> \<and>
               head (mb w') = head (mb w) \<and> calls w' = calls w \<and>
               (\<forall>a. a \<noteq> el \<and> a \<noteq> last (d # xs) \<longrightarrow> els w' a = els w a)
           | _ \<Rightarrow> False))"
proof -
  have el0: "el \<noteq> 0" and ea: "els w el = Some e" using e by (simp_all add: load_el_Some)
  have r: "(el_next e)\<lparr>ptr := 0\<rparr> = \<lparr>ptr = 0, ctr = ctr (el_next e)\<rparr>" by (cases "el_next e") simp
  have a: "aq_enqueue w el =
           aq_enqueue_multi (w\<lparr>els := (els w)(el \<mapsto> \<lparr>el_next = \<lparr>ptr = 0, ctr = ctr (el_next e)\<rparr>\<rparr>)\<rparr>) el"
    using e by (simp add: aq_enqueue_def r store_next_def)
  have b: "aq_last_el (w\<lparr>els := (els w)(el \<mapsto> \<lparr>el_next = \<lparr>ptr = 0, ctr = ctr (el_next e)\<rparr>\<rparr>)\<rparr>) el 1
           = Some (Inr (el, 1))"
    using el0 by (subst aq_last_el.simps) (simp add: load_el_def)
  have c: "aq_enqueue (w\<lparr>els := (els w)(el \<mapsto> \<lparr>el_next = \<lparr>ptr = p, ctr = ctr (el_next e)\<rparr>\<rparr>)\<rparr>) el
           = aq_enqueue w el"
    unfolding a using el0 by (simp add: aq_enqueue_def load_el_def store_next_def)
  have d: "case aq_enqueue w el of
             Some (Inr (n, w')) \<Rightarrow>
               n = of_nat (length xs) + 1 \<and> aq_inv w' d (xs @ [el]) \<and>
               els w' el = Some \<lparr>el_next = \<lparr>ptr = 0, ctr = ctr (tail (mb w))\<rparr>\<rparr> \<and>
               tail (mb w') = \<lparr>ptr = el, ctr = ctr (tail (mb w)) + 1\<rparr> \<and>
               head (mb w') = head (mb w) \<and> calls w' = calls w \<and>
               (\<forall>a. a \<noteq> el \<and> a \<noteq> last (d # xs) \<longrightarrow> els w' a = els w a)
           | _ \<Rightarrow> False"
    if inv: "aq_inv w d xs" and al: "el AND 0x0F = 0" and fresh: "el \<notin> set (d # xs)"
      and hb: "ctr (el_next e) AND handshake_bit = 0"
  proof -
    define tn where "tn = last (d # xs)"
    obtain te where te: "els w (last (d # xs)) = Some te"
      using aq_inv_tail_node(4) [OF inv refl] by blast
    have tin: "tn \<in> set (d # xs)" unfolding tn_def by (rule last_in_set) simp
    have ne: "el \<noteq> tn" using fresh tin by auto
    note r = aq_enqueue_ok [OF inv e al fresh hb te]
    show ?thesis
      unfolding r(1) using r(2) ne unfolding tn_def by simp
  qed
  show ?thesis using a b c d by blast
qed

text \<open>
  On \<open>world1\<close> the element 0x20 holds a stale link to 0x48.  \<open>aq_enqueue\<close> queues
  0x20 alone and returns 1; \<open>aq_enqueue_multi\<close> on the same state follows the link
  and returns 2.
\<close>

theorem aq_enqueue_nulls_next_witness:
  "load_el world1 0x20 = Some \<lparr>el_next = \<lparr>ptr = 0x48, ctr = 0\<rparr>\<rparr> \<and>
   aq_inv world1 0x10 [] \<and>
   aq_enqueue world1 0x20 =
     aq_enqueue_multi (world1\<lparr>els := (els world1)(0x20 \<mapsto> \<lparr>el_next = \<lparr>ptr = 0, ctr = 0\<rparr>\<rparr>)\<rparr>) 0x20 \<and>
   aq_enqueue (world1\<lparr>els := (els world1)(0x20 \<mapsto> \<lparr>el_next = \<lparr>ptr = 0x30, ctr = 0\<rparr>\<rparr>)\<rparr>) 0x20
     = aq_enqueue world1 0x20 \<and>
   aq_enqueue world1 0x20 =
     Some (Inr (1, world1\<lparr>els := (els world1)(0x20 \<mapsto> \<lparr>el_next = \<lparr>ptr = 0, ctr = 0\<rparr>\<rparr>,
                                               0x10 \<mapsto> \<lparr>el_next = \<lparr>ptr = 0x20, ctr = handshake_bit + 1\<rparr>\<rparr>),
                           mb := (mb world1)\<lparr>tail := \<lparr>ptr = 0x20, ctr = 1\<rparr>\<rparr>\<rparr>)) \<and>
   (case aq_enqueue world1 0x20 of
      Some (Inr (n, w')) \<Rightarrow>
        n = 1 \<and> aq_inv w' 0x10 [0x20] \<and>
        els w' 0x20 = Some \<lparr>el_next = \<lparr>ptr = 0, ctr = 0\<rparr>\<rparr> \<and>
        els w' 0x48 = els world1 0x48
    | _ \<Rightarrow> False) \<and>
   aq_enqueue_multi world1 0x20 = Some (Inr (2, world2))"
proof -
  have l: "load_el world1 0x20 = Some \<lparr>el_next = \<lparr>ptr = 0x48, ctr = 0\<rparr>\<rparr>"
    by (simp add: load_el_def world1_def world0_def mem0_def)
  have al: "(0x20 :: addr) AND 0x0F = 0" by simp
  have fresh: "(0x20 :: addr) \<notin> set [0x10]" by simp
  have hb: "ctr (el_next \<lparr>el_next = \<lparr>ptr = 0x48, ctr = 0\<rparr>\<rparr>) AND handshake_bit = 0" by simp
  have tl0: "tail (mb world1) = \<lparr>ptr = 0x10, ctr = 0\<rparr>" by (simp add: world1_def)
  note t = aq_enqueue_nulls_next [OF l, of "0x30" "0x10" "[]"]
  have c1: "aq_enqueue world1 0x20 =
     aq_enqueue_multi (world1\<lparr>els := (els world1)(0x20 \<mapsto> \<lparr>el_next = \<lparr>ptr = 0, ctr = 0\<rparr>\<rparr>)\<rparr>) 0x20"
    using t by simp
  have c3: "aq_enqueue (world1\<lparr>els := (els world1)(0x20 \<mapsto> \<lparr>el_next = \<lparr>ptr = 0x30, ctr = 0\<rparr>\<rparr>)\<rparr>) 0x20
     = aq_enqueue world1 0x20"
    using t by simp
  have te: "els world1 (last [0x10]) = Some \<lparr>el_next = \<lparr>ptr = 0, ctr = handshake_bit\<rparr>\<rparr>"
    by (simp add: world1_def)
  have v: "aq_enqueue world1 0x20 =
     Some (Inr (1, world1\<lparr>els := (els world1)(0x20 \<mapsto> \<lparr>el_next = \<lparr>ptr = 0, ctr = 0\<rparr>\<rparr>,
                                               0x10 \<mapsto> \<lparr>el_next = \<lparr>ptr = 0x20, ctr = handshake_bit + 1\<rparr>\<rparr>),
                           mb := (mb world1)\<lparr>tail := \<lparr>ptr = 0x20, ctr = 1\<rparr>\<rparr>\<rparr>))"
    using aq_enqueue_ok(1) [OF inv_world1 l al fresh hb te] tl0 by simp
  have prem: "aq_inv world1 0x10 [] \<and> (0x20 :: addr) AND 0x0F = 0 \<and> (0x20 :: addr) \<notin> set (0x10 # [])
      \<and> ctr (el_next \<lparr>el_next = \<lparr>ptr = 0x48, ctr = 0\<rparr>\<rparr>) AND handshake_bit = 0"
    using inv_world1 by simp
  note t4 = mp [OF t [THEN conjunct2, THEN conjunct2, THEN conjunct2] prem]
  have c4: "case aq_enqueue world1 0x20 of
      Some (Inr (n, w')) \<Rightarrow>
        n = 1 \<and> aq_inv w' 0x10 [0x20] \<and>
        els w' 0x20 = Some \<lparr>el_next = \<lparr>ptr = 0, ctr = 0\<rparr>\<rparr> \<and>
        els w' 0x48 = els world1 0x48
    | _ \<Rightarrow> False"
    using t4 unfolding v by (simp add: tl0)
  have ch: "el_chain (els world1) 0x20 [0x20, 0x48]"
    by (simp add: el_chain_def world1_def world0_def mem0_def)
  have e2: "els world1 0x20 = Some \<lparr>el_next = \<lparr>ptr = 0x48, ctr = 0\<rparr>\<rparr>"
    by (simp add: world1_def world0_def mem0_def)
  have m: "aq_enqueue_multi world1 0x20 = Some (Inr (2, world2))"
    using aq_enqueue_multi_ok [OF inv_world1 ch _ _ e2 _ _ _ te]
    by (simp add: world2_def world1_def world0_def)
  show ?thesis by (intro conjI l inv_world1 c1 c3 v c4 m)
qed

text \<open>
  Claim C10.  \<open>aq_empty\<close>, \<open>aq_queued\<close> and \<open>as_empty\<close> contain no assignment and are
  functions of the state; a program that calls one of them continues in the state
  it was in.  \<open>aq_empty\<close> reads only \<open>head.ptr\<close> and the element it points at,
  \<open>aq_queued\<close> only the two counters, and \<open>as_empty\<close> only the pointer of the stack
  head: states that agree there give the same result.
\<close>

theorem observers_frame:
  "(aq_exec Op_empty w = Some (Inr (r, w')) \<longrightarrow> w' = w)
   \<and> (aq_exec Op_queued w = Some (Inr (r, w')) \<longrightarrow> w' = w)
   \<and> (as_exec Op_as_empty sw = Some (Inr (sr, sw')) \<longrightarrow> sw' = sw)
   \<and> (ptr (head (mb w2)) = ptr (head (mb w)) \<longrightarrow>
        load_el w2 (ptr (head (mb w))) = load_el w (ptr (head (mb w))) \<longrightarrow> aq_empty w2 = aq_empty w)
   \<and> (ctr (head (mb w2)) = ctr (head (mb w)) \<longrightarrow> ctr (tail (mb w2)) = ctr (tail (mb w)) \<longrightarrow>
        aq_queued w2 = aq_queued w)
   \<and> (ptr (first (s_head sw2)) = ptr (first (s_head sw)) \<longrightarrow> as_empty sw2 = as_empty sw)"
  by (auto simp: aq_exec_def as_exec_def aq_empty_def aq_queued_def as_empty_def
           split: sum.splits)

theorem observers_frame_witness:
  "aq_exec Op_empty world2 = Some (Inr (Res_bool False, world2))
   \<and> aq_exec Op_queued world2 = Some (Inr (Res_len 2, world2))
   \<and> as_exec Op_as_empty stack0 = Some (Inr (Is_empty True, stack0))
   \<and> aq_empty (world2\<lparr>calls := [(1, 2, 3)], mb := (mb world2)\<lparr>freeer_arg := 5\<rparr>\<rparr>) = aq_empty world2
   \<and> aq_queued (world2\<lparr>els := mem0, mb := (mb world2)\<lparr>freeer := 7\<rparr>\<rparr>) = aq_queued world2
   \<and> as_empty (stack0\<lparr>entries := Map.empty, s_head := \<lparr>first = \<lparr>ptr = 0, ctr = 9\<rparr>\<rparr>\<rparr>) = as_empty stack0"
proof -
  have a: "aq_exec Op_empty world2 = Some (Inr (Res_bool False, world2))"
    by (simp add: aq_exec_def aq_empty_def load_el_def world2_def world1_def)
  have b: "aq_exec Op_queued world2 = Some (Inr (Res_len 2, world2))"
    by (simp add: aq_exec_def aq_queued_def world2_def world1_def)
  have c: "as_exec Op_as_empty stack0 = Some (Inr (Is_empty True, stack0))"
    by (simp add: as_exec_def as_empty_def stack0_def)
  note t = observers_frame [of world2 "Res_bool False" world2 stack0 "Is_empty True" stack0]
  note u = observers_frame [of world2 _ _ stack0 _ _ "world2\<lparr>calls := [(1, 2, 3)], mb := (mb world2)\<lparr>freeer_arg := 5\<rparr>\<rparr>"]
  note v = observers_frame [of world2 _ _ stack0 _ _ "world2\<lparr>els := mem0, mb := (mb world2)\<lparr>freeer := 7\<rparr>\<rparr>"
                              "stack0\<lparr>entries := Map.empty, s_head := \<lparr>first = \<lparr>ptr = 0, ctr = 9\<rparr>\<rparr>\<rparr>"]
  have d: "aq_empty (world2\<lparr>calls := [(1, 2, 3)], mb := (mb world2)\<lparr>freeer_arg := 5\<rparr>\<rparr>) = aq_empty world2"
    using u by (simp add: load_el_def)
  have e: "aq_queued (world2\<lparr>els := mem0, mb := (mb world2)\<lparr>freeer := 7\<rparr>\<rparr>) = aq_queued world2"
    using v by simp
  have f: "as_empty (stack0\<lparr>entries := Map.empty, s_head := \<lparr>first = \<lparr>ptr = 0, ctr = 9\<rparr>\<rparr>\<rparr>) = as_empty stack0"
    using v by (simp add: stack0_def)
  from t a have a': "world2 = world2" by simp
  show ?thesis by (intro conjI a b c d e f)
qed


end
